theory Spec2Isabelle
  imports Complex_Main "HOL-Library.Word"
begin

unbundle bit_operations_syntax

section \<open>The stepper motor library (src/lib/stepper.hpp)\<close>

subsection \<open>Types and constants\<close>

type_synonym u8 = "8 word"

type_synonym u32 = "32 word"

type_synonym pin_t = u8

type_synonym pin_value_t = u8

type_synonym delay_t = u32

type_synonym timestamp_t = u32

text \<open>
  \<^verbatim>\<open>#define ENABLE_US 1\<close>, \<^verbatim>\<open>#define MICRO_LEVELS 6\<close>,
  \<^verbatim>\<open>#define SHIFT_THRESHOLD (1 << 30)\<close> (an \<^verbatim>\<open>int\<close> of 32 bits, converted to \<^verbatim>\<open>uint32_t\<close> where
  it is compared).
\<close>

definition ENABLE_US :: u32 where
  "ENABLE_US = 1"

definition MICRO_LEVELS :: nat where
  "MICRO_LEVELS = 6"

definition SHIFT_THRESHOLD :: u32 where
  "SHIFT_THRESHOLD = push_bit 30 1"

text \<open>\<^verbatim>\<open>enum state { OFF, ACCEL, DECEL, TARGET_SPEED }\<close>\<close>

datatype state = OFF | ACCEL | DECEL | TARGET_SPEED

text \<open>
  The private members of \<^verbatim>\<open>struct stepper\<close>; member \<^verbatim>\<open>_x\<close> of the source is field
  \<open>m_x\<close>. The array \<^verbatim>\<open>_delay0[MICRO_LEVELS]\<close> is a list. \<^verbatim>\<open>int8_t\<close> and \<^verbatim>\<open>int32_t\<close>
  members are words read with \<open>sint\<close>.
\<close>

record stepper =
  m_dir_pin :: pin_t
  m_step_pin :: pin_t
  m_enable_pin :: pin_t
  m_micro0_pin :: pin_t
  m_micro1_pin :: pin_t
  m_micro2_pin :: pin_t
  m_forward_value :: pin_value_t
  m_dir :: u8
  m_pos :: u32
  m_target_pos :: u32
  m_accel_steps :: u32
  m_micro :: u8
  m_delay0 :: "delay_t list"
  m_delay :: delay_t
  m_smooth_delay :: delay_t
  m_target_delay :: delay_t
  m_shift :: u8
  m_step :: u8
  m_state :: state

subsection \<open>Private helpers\<close>

text \<open>\<^verbatim>\<open>return _pos == _target_pos and _accel_steps == 0;\<close>\<close>

definition is_stopped :: "stepper \<Rightarrow> bool" where
  "is_stopped s \<longleftrightarrow> m_pos s = m_target_pos s \<and> m_accel_steps s = 0"

text \<open>
  \<^verbatim>\<open>shift_down\<close>: every delay is shifted right by \<^verbatim>\<open>_shift\<close>, then \<^verbatim>\<open>_shift = 0\<close>.
  (A shift of a \<^verbatim>\<open>uint32_t\<close> by 32 or more is undefined in C++; \<open>drop_bit\<close> gives 0
  there. The theorems below that depend on the shifted values assume \<open>m_shift\<close> below 32.)
\<close>

definition shift_down :: "stepper \<Rightarrow> stepper" where
  "shift_down s =
     s\<lparr> m_delay0 := map (drop_bit (unat (m_shift s))) (m_delay0 s),
        m_delay := drop_bit (unat (m_shift s)) (m_delay s),
        m_target_delay := drop_bit (unat (m_shift s)) (m_target_delay s),
        m_smooth_delay := drop_bit (unat (m_shift s)) (m_smooth_delay s),
        m_shift := 0 \<rparr>"

text \<open>
  The loop of \<^verbatim>\<open>shift_up\<close>:
  \<^verbatim>\<open>while (max_delay < SHIFT_THRESHOLD) { _shift += 1; max_delay <<= 1; }\<close>
  on a \<^verbatim>\<open>uint8_t\<close> and a \<^verbatim>\<open>uint32_t\<close>. It may run forever: not returning is \<open>None\<close>.
\<close>

partial_function (option) shift_loop :: "u8 \<Rightarrow> u32 \<Rightarrow> (u8 \<times> u32) option" where
  "shift_loop sh max_delay =
     (if max_delay < SHIFT_THRESHOLD then shift_loop (sh + 1) (push_bit 1 max_delay)
      else Some (sh, max_delay))"

text \<open>\<^verbatim>\<open>std::max(std::max(_delay0[MICRO_LEVELS - 1], _target_delay), _smooth_delay)\<close>\<close>

definition max_delay_of :: "stepper \<Rightarrow> u32" where
  "max_delay_of s =
     max (max (m_delay0 s ! (MICRO_LEVELS - 1)) (m_target_delay s)) (m_smooth_delay s)"

definition shift_up :: "stepper \<Rightarrow> stepper option" where
  "shift_up s =
     (if m_shift s \<noteq> 0 then Some s
      else case shift_loop (m_shift s) (max_delay_of s) of
        None \<Rightarrow> None
      | Some (sh, _) \<Rightarrow>
          Some (s\<lparr> m_delay0 := map (push_bit (unat sh)) (m_delay0 s),
                   m_delay := push_bit (unat sh) (m_delay s),
                   m_target_delay := push_bit (unat sh) (m_target_delay s),
                   m_smooth_delay := push_bit (unat sh) (m_smooth_delay s),
                   m_shift := sh \<rparr>))"

subsection \<open>The public interface\<close>

text \<open>
  A call that returns gives \<open>Some\<close> of the new state; a call that never returns gives
  \<open>None\<close>. \<^verbatim>\<open>pinMode\<close> and \<^verbatim>\<open>digitalWrite\<close> act on the hardware, outside the struct;
  \<^verbatim>\<open>now_us()\<close> is the argument \<open>now\<close>.
\<close>

definition calibrate_position :: "stepper \<Rightarrow> u32 \<Rightarrow> stepper option" where
  "calibrate_position s p =
     (if \<not> is_stopped s then Some s
      else shift_up ((shift_down s)\<lparr> m_pos := p \<rparr>))"

definition on :: "stepper \<Rightarrow> u32 \<Rightarrow> stepper \<times> timestamp_t" where
  "on s now = (s\<lparr> m_state := ACCEL \<rparr>, now + ENABLE_US + 1)"

definition off :: "stepper \<Rightarrow> u32 \<Rightarrow> stepper \<times> timestamp_t" where
  "off s now =
     (s\<lparr> m_accel_steps := 0,
         m_delay := m_delay0 s ! unat (m_micro s),
         m_state := OFF \<rparr>, now + ENABLE_US + 1)"

text \<open>
  \<^verbatim>\<open>acceleration(float accel)\<close>. The table entries are computed in floating point:
  \<^verbatim>\<open>float d0 = sqrt(1/accel) * 0.676 * 1e6; _delay0[m] = uint32_t(d0 * sqrt(1 << m));\<close>
  The argument \<open>entry\<close> gives, for each level \<open>m\<close>, the value of that right-hand side.
\<close>

definition acceleration :: "stepper \<Rightarrow> (nat \<Rightarrow> delay_t) \<Rightarrow> stepper option" where
  "acceleration s entry =
     (if \<not> is_stopped s then Some s
      else
        let s1 = shift_down s;
            s2 = s1\<lparr> m_delay := m_delay0 s1 ! unat (m_micro s1) \<rparr>;
            s3 = s2\<lparr> m_delay0 := map entry [0..<MICRO_LEVELS] \<rparr>
        in shift_up s3)"

text \<open>\<^verbatim>\<open>_target_pos = pos << _micro;\<close>\<close>

definition target_pos :: "stepper \<Rightarrow> u32 \<Rightarrow> stepper" where
  "target_pos s p = s\<lparr> m_target_pos := push_bit (unat (m_micro s)) p \<rparr>"

text \<open>
  \<^verbatim>\<open>target_speed(float speed)\<close>. The argument \<open>td\<close> is the value of
  \<^verbatim>\<open>delay_t(1e6 / speed)\<close>, computed in floating point by the source.
\<close>

definition target_speed :: "stepper \<Rightarrow> delay_t \<Rightarrow> stepper option" where
  "target_speed s td =
     (let s1 = (shift_down s)\<lparr> m_target_delay := td \<rparr>;
          s2 = (if \<not> is_stopped s1 \<and> m_state s1 \<noteq> OFF
                then (if m_target_delay s1 > m_delay s1
                      then s1\<lparr> m_state := DECEL \<rparr>
                      else s1\<lparr> m_state := ACCEL \<rparr>)
                else s1)
      in shift_up s2)"

text \<open>\<^verbatim>\<open>timestamp_t stepper::step() { return 0; }\<close>\<close>

definition step :: "stepper \<Rightarrow> stepper \<times> timestamp_t" where
  "step s = (s, 0)"

text \<open>
  The constructor. The initialiser list leaves \<^verbatim>\<open>_delay0\<close> uninitialised: \<open>uninit\<close>
  is its indeterminate content. The body calls \<^verbatim>\<open>acceleration(DEFAULT_ACCEL)\<close>, whose
  table is \<open>entry\<close>, and \<^verbatim>\<open>target_speed(DEFAULT_TARGET_SPEED)\<close>, where
  \<^verbatim>\<open>delay_t(1e6 / 10.0)\<close> is 100000.
\<close>

definition DEFAULT_TARGET_DELAY :: delay_t where
  "DEFAULT_TARGET_DELAY = 100000"

definition stepper_init ::
  "pin_t \<Rightarrow> pin_t \<Rightarrow> pin_t \<Rightarrow> pin_t \<Rightarrow> pin_t \<Rightarrow> pin_t \<Rightarrow> pin_value_t \<Rightarrow> delay_t
     \<Rightarrow> delay_t list \<Rightarrow> stepper" where
  "stepper_init dir_pin step_pin enable_pin micro0_pin micro1_pin micro2_pin
       forward_value smooth_delay uninit =
     \<lparr> m_dir_pin = dir_pin, m_step_pin = step_pin, m_enable_pin = enable_pin,
       m_micro0_pin = micro0_pin, m_micro1_pin = micro1_pin, m_micro2_pin = micro2_pin,
       m_forward_value = forward_value,
       m_dir = 1, m_pos = 0, m_target_pos = 0, m_accel_steps = 0, m_micro = 0,
       m_delay0 = uninit, m_delay = 0, m_smooth_delay = smooth_delay,
       m_target_delay = 1000000, m_shift = 0, m_step = 0, m_state = ACCEL \<rparr>"

definition stepper_ctor ::
  "pin_t \<Rightarrow> pin_t \<Rightarrow> pin_t \<Rightarrow> pin_t \<Rightarrow> pin_t \<Rightarrow> pin_t \<Rightarrow> pin_value_t \<Rightarrow> delay_t
     \<Rightarrow> delay_t list \<Rightarrow> (nat \<Rightarrow> delay_t) \<Rightarrow> stepper option" where
  "stepper_ctor dir_pin step_pin enable_pin micro0_pin micro1_pin micro2_pin
       forward_value smooth_delay uninit entry =
     (case acceleration
             (stepper_init dir_pin step_pin enable_pin micro0_pin micro1_pin micro2_pin
                forward_value smooth_delay uninit) entry of
        None \<Rightarrow> None
      | Some s \<Rightarrow> target_speed s DEFAULT_TARGET_DELAY)"

subsection \<open>The ramp table of acceleration\<close>

text \<open>
  The floating-point arithmetic of \<^verbatim>\<open>acceleration\<close>, as IEEE 754 does it (an \<^verbatim>\<open>int\<close> of 32
  bits, a \<^verbatim>\<open>float\<close> of 32 and a \<^verbatim>\<open>double\<close> of 64, as on the 32-bit boards). A finite
  floating-point number is the real it denotes. \<open>round_sig f\<close> rounds a real to the nearest
  number whose significand has \<open>f\<close> bits after the leading one, ties to the even
  significand: \<open>round_float\<close> with 23 bits, \<open>round_double\<close> with 52. The exponent range is not
  modelled (no overflow, no subnormal numbers).
\<close>

definition round_even :: "real \<Rightarrow> int" where
  "round_even q =
     (let f = \<lfloor>q\<rfloor>
      in if q - of_int f < 1 / 2 then f
         else if 1 / 2 < q - of_int f then f + 1
         else if even f then f else f + 1)"

definition round_sig :: "nat \<Rightarrow> real \<Rightarrow> real" where
  "round_sig f x =
     (if x = 0 then 0
      else let u = 2 powr (of_int \<lfloor>log 2 \<bar>x\<bar>\<rfloor> - of_nat f)
           in sgn x * (u * of_int (round_even (\<bar>x\<bar> / u))))"

definition round_float :: "real \<Rightarrow> real" where
  "round_float = round_sig 23"

definition round_double :: "real \<Rightarrow> real" where
  "round_double = round_sig 52"

text \<open>
  \<^verbatim>\<open>float d0 = sqrt(1/accel) * 0.676 * 1e6;\<close> with \<^verbatim>\<open>accel\<close> a \<^verbatim>\<open>float\<close>: the division is a
  float division; \<open>float_sqrt\<close> says whether the platform selects, for the float argument,
  the float overload of \<^verbatim>\<open>sqrt\<close> or the double function; \<^verbatim>\<open>0.676\<close> and \<^verbatim>\<open>1e6\<close> are double
  literals and the two products are double products, from left to right; the
  initialisation narrows the result to float.
\<close>

definition sqrt_of_float :: "bool \<Rightarrow> real \<Rightarrow> real" where
  "sqrt_of_float float_sqrt v =
     (if float_sqrt then round_float (sqrt v) else round_double (sqrt v))"

definition base_delay :: "bool \<Rightarrow> real \<Rightarrow> real" where
  "base_delay float_sqrt accel =
     round_float
       (round_double
          (round_double
             (sqrt_of_float float_sqrt (round_float (1 / accel)) * round_double (676 / 1000))
           * 1000000))"

text \<open>
  The double \<^verbatim>\<open>d0 * sqrt(1 << m)\<close> and its conversion \<^verbatim>\<open>uint32_t(d0 * sqrt(1 << m))\<close>, for
  \<open>d0\<close> the value held by the variable \<^verbatim>\<open>float d0\<close>. \<^verbatim>\<open>sqrt(1 << m)\<close> is the correctly rounded
  double square root of the integer \<open>2 ^ m\<close>; the product with \<^verbatim>\<open>d0\<close>, widened to double, is
  rounded once; the conversion truncates, which for a product that is not negative is
  \<open>\<lfloor>_\<rfloor>\<close> (a product of \<open>2 ^ 32\<close> or more has no defined conversion in C++).
\<close>

definition ramp_value :: "real \<Rightarrow> nat \<Rightarrow> real" where
  "ramp_value d0 m = round_double (d0 * round_double (sqrt (2 ^ m)))"

definition ramp_entry :: "real \<Rightarrow> nat \<Rightarrow> delay_t" where
  "ramp_entry d0 m = of_int \<lfloor>ramp_value d0 m\<rfloor>"

text \<open>
  The formula of the specification (section 4.2), over the reals:
  \<open>d0 = sqrt(1/acceleration) * k * 1e6\<close> with \<open>k\<close> = 0.676, and
  \<open>start_delay[m] = d0 * sqrt(2^m)\<close>.
\<close>

definition spec_d0 :: "real \<Rightarrow> real" where
  "spec_d0 accel = sqrt (1 / accel) * (676 / 1000) * 1000000"

definition spec_start_delay :: "real \<Rightarrow> nat \<Rightarrow> real" where
  "spec_start_delay accel m = spec_d0 accel * sqrt (2 ^ m)"

text \<open>\<open>y\<close> is \<open>X\<close> after \<open>k\<close> roundings, each with a relative error of at most \<open>2\<^sup>-\<^sup>2\<^sup>4\<close>.\<close>

definition rel_err :: "nat \<Rightarrow> real \<Rightarrow> real \<Rightarrow> bool" where
  "rel_err k X y \<longleftrightarrow> X * (1 - 1 / 2 ^ 24) ^ k \<le> y \<and> y \<le> X * (1 + 1 / 2 ^ 24) ^ k"

subsection \<open>Calls in sequence\<close>

text \<open>\<open>n\<close> calls of \<^verbatim>\<open>step()\<close> in a row.\<close>

fun steps :: "nat \<Rightarrow> stepper \<Rightarrow> stepper" where
  "steps 0 s = s"
| "steps (Suc n) s = steps n (fst (step s))"

text \<open>
  The states an engine can be in: the constructor's result, and the result of every
  public member function called on such a state with any arguments.
\<close>

inductive reachable :: "stepper \<Rightarrow> bool" where
  r_ctor: "stepper_ctor dp sp ep m0 m1 m2 fv sd uninit entry = Some s \<Longrightarrow> reachable s"
| r_calibrate_position: "reachable s \<Longrightarrow> calibrate_position s p = Some s' \<Longrightarrow> reachable s'"
| r_on: "reachable s \<Longrightarrow> reachable (fst (on s now))"
| r_off: "reachable s \<Longrightarrow> reachable (fst (off s now))"
| r_acceleration: "reachable s \<Longrightarrow> acceleration s entry = Some s' \<Longrightarrow> reachable s'"
| r_target_pos: "reachable s \<Longrightarrow> reachable (target_pos s p)"
| r_target_speed: "reachable s \<Longrightarrow> target_speed s td = Some s' \<Longrightarrow> reachable s'"
| r_step: "reachable s \<Longrightarrow> reachable (fst (step s))"

subsection \<open>The invariant of the precision scaling\<close>

text \<open>All delay fields multiplied by \<open>2 ^ k\<close>, as the tail of \<^verbatim>\<open>shift_up\<close> does.\<close>

definition scale_delays :: "nat \<Rightarrow> stepper \<Rightarrow> stepper" where
  "scale_delays k s =
     s\<lparr> m_delay0 := map (push_bit k) (m_delay0 s),
        m_delay := push_bit k (m_delay s),
        m_target_delay := push_bit k (m_target_delay s),
        m_smooth_delay := push_bit k (m_smooth_delay s),
        m_shift := of_nat k \<rparr>"

text \<open>The low \<open>k\<close> bits of \<open>x\<close> are 0: shifting down and up again gives \<open>x\<close> back.\<close>

definition aligned :: "nat \<Rightarrow> u32 \<Rightarrow> bool" where
  "aligned k x \<longleftrightarrow> push_bit k (drop_bit k x) = x"

text \<open>
  What \<^verbatim>\<open>shift_up\<close> establishes: the largest of the three delays it looks at is at or
  above the threshold (and below twice the threshold if it had to shift), and every delay
  field is a multiple of \<open>2 ^ _shift\<close>.
\<close>

definition normalised :: "stepper \<Rightarrow> bool" where
  "normalised s \<longleftrightarrow>
     unat (m_shift s) \<le> 30
     \<and> length (m_delay0 s) = MICRO_LEVELS
     \<and> unat (m_micro s) < MICRO_LEVELS
     \<and> SHIFT_THRESHOLD \<le> max_delay_of s
     \<and> (m_shift s \<noteq> 0 \<longrightarrow> unat (max_delay_of s) < 2 ^ 31)
     \<and> list_all (aligned (unat (m_shift s))) (m_delay0 s)
     \<and> aligned (unat (m_shift s)) (m_delay s)
     \<and> aligned (unat (m_shift s)) (m_target_delay s)
     \<and> aligned (unat (m_shift s)) (m_smooth_delay s)"

subsection \<open>Concrete states\<close>

text \<open>
  The table of \<^verbatim>\<open>acceleration(DEFAULT_ACCEL)\<close>: with \<^verbatim>\<open>accel = 10.0\<close>, \<^verbatim>\<open>d0\<close> is
  213769.96875 and the entries are \<^verbatim>\<open>uint32_t(d0 * sqrt(1 << m))\<close>.
\<close>

definition default_entry :: "nat \<Rightarrow> delay_t" where
  "default_entry m = [213769, 302316, 427539, 604632, 855079, 1209265] ! m"

text \<open>
  The engine built by \<^verbatim>\<open>stepper(2, 3, 4, 5, 6, 7, 1, 1000)\<close> when the uninitialised
  \<^verbatim>\<open>_delay0\<close> holds zeros (\<open>ctor_default\<close> below).
\<close>

definition default_state :: stepper where
  "default_state =
     \<lparr> m_dir_pin = 2, m_step_pin = 3, m_enable_pin = 4,
       m_micro0_pin = 5, m_micro1_pin = 6, m_micro2_pin = 7,
       m_forward_value = 1,
       m_dir = 1, m_pos = 0, m_target_pos = 0, m_accel_steps = 0, m_micro = 0,
       m_delay0 = [218899456, 309571584, 437799936, 619143168, 875600896, 1238287360],
       m_delay = 0, m_smooth_delay = 1024000,
       m_target_delay = 102400000, m_shift = 10, m_step = 0, m_state = ACCEL \<rparr>"

text \<open>The default engine after \<^verbatim>\<open>target_pos(1000)\<close>: not stopped.\<close>

definition moving_state :: stepper where
  "moving_state = target_pos default_state 1000"

text \<open>
  The default engine after \<^verbatim>\<open>off(); on(); target_pos(1000)\<close>: moving, phase ACCEL, the
  delay at the first table entry.
\<close>

definition accel_state :: stepper where
  "accel_state = default_state\<lparr> m_target_pos := 1000, m_delay := 218899456 \<rparr>"

text \<open>That engine after \<^verbatim>\<open>target_speed(2.5)\<close>, target delay 400000: phase DECEL.\<close>

definition decel_state :: stepper where
  "decel_state = accel_state\<lparr> m_target_delay := 409600000, m_state := DECEL \<rparr>"

text \<open>
  The table of an acceleration of \<open>1.5e13\<close> or more, where every
  \<^verbatim>\<open>uint32_t(d0 * sqrt(1 << m))\<close> is 0, and the default engine with smooth delay 0 after
  such a call.
\<close>

definition zero_entry :: "nat \<Rightarrow> delay_t" where
  "zero_entry m = 0"

definition zero_table_state :: stepper where
  "zero_table_state =
     default_state\<lparr> m_delay0 := [0, 0, 0, 0, 0, 0], m_delay := 3502391296,
        m_smooth_delay := 0, m_target_delay := 1638400000, m_shift := 14 \<rparr>"

text \<open>A stopped engine, unshifted, whose delays are all 0.\<close>

definition all_zero_state :: stepper where
  "all_zero_state =
     default_state\<lparr> m_delay0 := [0, 0, 0, 0, 0, 0], m_delay := 0,
        m_smooth_delay := 0, m_target_delay := 0, m_shift := 0 \<rparr>"

text \<open>
  The table of \<^verbatim>\<open>acceleration(1.0)\<close>: \<^verbatim>\<open>sqrt(1/1.0f)\<close> is 1 and \<^verbatim>\<open>0.676 * 1e6\<close> rounds to
  the double 676000, so \<^verbatim>\<open>d0\<close> is 676000.
\<close>

definition unit_d0 :: real where
  "unit_d0 = 676000"

section \<open>The doubling loop of shift_up\<close>

lemma unat_push_bit_u32:
  fixes w :: u32
  shows "unat (push_bit n w) = (unat w * 2 ^ n) mod 2 ^ 32"
  by (simp only: unsigned_push_bit_eq) (simp add: push_bit_eq_mult take_bit_eq_mod)

lemma unat_threshold: "unat SHIFT_THRESHOLD = 2 ^ 30"
  by (simp add: SHIFT_THRESHOLD_def)

lemma below_threshold: "m < SHIFT_THRESHOLD \<longleftrightarrow> unat m < 2 ^ 30"
  by (simp add: word_less_nat_alt unat_threshold)

lemma shift_loop_Some_nonzero:
  assumes "shift_loop sh m = Some r"
  shows "m \<noteq> 0"
proof (rule shift_loop.raw_induct [where P = "\<lambda>_ b _. b \<noteq> 0", OF _ assms])
  fix f :: "u8 \<Rightarrow> u32 \<Rightarrow> (u8 \<times> u32) option" and a :: u8 and b :: u32 and y
  assume IH: "\<And>a' b' y'. f a' b' = Some y' \<Longrightarrow> b' \<noteq> 0"
    and eq: "(if b < SHIFT_THRESHOLD then f (a + 1) (push_bit 1 b) else Some (a, b)) = Some y"
  show "b \<noteq> 0"
  proof (cases "b < SHIFT_THRESHOLD")
    case True
    with eq have "f (a + 1) (push_bit 1 b) = Some y" by simp
    then have "push_bit 1 b \<noteq> 0" by (rule IH)
    then show ?thesis by auto
  next
    case False
    then show ?thesis by (auto simp: SHIFT_THRESHOLD_def)
  qed
qed

lemma shift_loop_zero: "shift_loop sh 0 = None"
  using shift_loop_Some_nonzero [of sh 0] by (cases "shift_loop sh 0") auto

lemma shift_loop_some:
  "m \<noteq> 0 \<Longrightarrow>
   \<exists>k\<le>30. shift_loop sh m = Some (sh + of_nat k, push_bit k m)
        \<and> 2 ^ 30 \<le> unat m * 2 ^ k
        \<and> (0 < k \<longrightarrow> unat m * 2 ^ k < 2 ^ 31)
        \<and> (\<forall>j<k. unat m * 2 ^ j < 2 ^ 30)"
proof (induction "2 ^ 30 - unat m" arbitrary: m sh rule: less_induct)
  case less
  show ?case
  proof (cases "m < SHIFT_THRESHOLD")
    case False
    then have "2 ^ 30 \<le> unat m" by (simp add: below_threshold)
    with False show ?thesis
      by (intro exI [of _ 0]) (simp add: shift_loop.simps)
  next
    case True
    then have lt: "unat m < 2 ^ 30" by (simp add: below_threshold)
    have pos: "0 < unat m" using less.prems by (simp add: unat_gt_0)
    have dbl: "unat (push_bit 1 m) = 2 * unat m" using lt by (simp only: unat_push_bit_u32) simp
    have nz: "push_bit 1 m \<noteq> 0"
    proof
      assume "push_bit 1 m = 0"
      then have "unat (push_bit 1 m) = 0" by simp
      with dbl pos show False by simp
    qed
    have "2 ^ 30 - unat (push_bit 1 m) < 2 ^ 30 - unat m" using dbl lt pos by simp
    from less.hyps [OF this nz, of "sh + 1"] obtain k where k:
      "k \<le> 30"
      "shift_loop (sh + 1) (push_bit 1 m) = Some (sh + 1 + of_nat k, push_bit k (push_bit 1 m))"
      "2 ^ 30 \<le> unat (push_bit 1 m) * 2 ^ k"
      "0 < k \<longrightarrow> unat (push_bit 1 m) * 2 ^ k < 2 ^ 31"
      "\<forall>j<k. unat (push_bit 1 m) * 2 ^ j < 2 ^ 30" by blast
    have kle: "Suc k \<le> 30"
    proof (rule ccontr)
      assume "\<not> Suc k \<le> 30"
      then have "29 < k" by simp
      with k(5) have "unat (push_bit 1 m) * 2 ^ 29 < 2 ^ 30" by blast
      then show False using dbl pos by simp
    qed
    have small: "\<forall>j<Suc k. unat m * 2 ^ j < 2 ^ 30"
    proof (intro allI impI)
      fix j assume "j < Suc k"
      show "unat m * 2 ^ j < 2 ^ 30"
      proof (cases j)
        case 0 then show ?thesis using lt by simp
      next
        case (Suc i)
        with \<open>j < Suc k\<close> have "i < k" by simp
        with k(5) have "unat (push_bit 1 m) * 2 ^ i < 2 ^ 30" by blast
        then show ?thesis using Suc dbl by (simp add: mult.assoc)
      qed
    qed
    have "push_bit k (push_bit 1 m) = push_bit (Suc k) m"
      by (simp add: push_bit_eq_mult)
    then have "shift_loop sh m = Some (sh + of_nat (Suc k), push_bit (Suc k) m)"
      using True k(2) by (subst shift_loop.simps) (simp add: add.assoc)
    moreover have "2 ^ 30 \<le> unat m * 2 ^ Suc k"
      using k(3) dbl by (simp add: mult.assoc mult.commute)
    moreover have "unat m * 2 ^ Suc k < 2 ^ 31"
    proof (cases "k = 0")
      case True then show ?thesis using lt by simp
    next
      case False then show ?thesis using k(4) dbl by (simp add: mult.assoc mult.commute)
    qed
    ultimately show ?thesis using kle small by (intro exI [of _ "Suc k"]) simp
  qed
qed

section \<open>shift_up\<close>

lemma shift_up_shifted: "m_shift s \<noteq> 0 \<Longrightarrow> shift_up s = Some s"
  by (simp add: shift_up_def)

lemma shift_up_None: "m_shift s = 0 \<Longrightarrow> max_delay_of s = 0 \<Longrightarrow> shift_up s = None"
  by (simp add: shift_up_def shift_loop_zero)

lemma unat_of_nat_u8: "k \<le> 30 \<Longrightarrow> unat (of_nat k :: u8) = k"
  by (simp add: unat_of_nat take_bit_nat_eq_self)

lemma shift_up_Some:
  assumes "m_shift s = 0" "max_delay_of s \<noteq> 0"
  shows "\<exists>k\<le>30. shift_up s = Some (scale_delays k s)
        \<and> 2 ^ 30 \<le> unat (max_delay_of s) * 2 ^ k
        \<and> (0 < k \<longrightarrow> unat (max_delay_of s) * 2 ^ k < 2 ^ 31)
        \<and> (\<forall>j<k. unat (max_delay_of s) * 2 ^ j < 2 ^ 30)"
proof -
  from shift_loop_some [OF assms(2), of 0] obtain k where k:
    "k \<le> 30" "shift_loop 0 (max_delay_of s) = Some (of_nat k, push_bit k (max_delay_of s))"
    "2 ^ 30 \<le> unat (max_delay_of s) * 2 ^ k"
    "0 < k \<longrightarrow> unat (max_delay_of s) * 2 ^ k < 2 ^ 31"
    "\<forall>j<k. unat (max_delay_of s) * 2 ^ j < 2 ^ 30" by auto
  have "shift_up s = Some (scale_delays k s)"
    using assms(1) k(1,2) by (simp add: shift_up_def scale_delays_def unat_of_nat_u8)
  with k show ?thesis by blast
qed

lemma upt_6: "[0..<6] = [0, 1, 2, 3, 4, 5]"
  by (simp add: upt_rec)

lemma ctor_default:
  "stepper_ctor 2 3 4 5 6 7 1 1000 [0, 0, 0, 0, 0, 0] default_entry = Some default_state"
  by (simp add: stepper_ctor_def stepper_init_def acceleration_def target_speed_def is_stopped_def
      shift_down_def shift_up_def max_delay_of_def MICRO_LEVELS_def upt_6 default_entry_def
      shift_loop.simps SHIFT_THRESHOLD_def DEFAULT_TARGET_DELAY_def default_state_def Let_def)

text \<open>The unfolding rules that evaluate the member functions on a concrete state.\<close>

lemmas eval_defs =
  stepper_ctor_def stepper_init_def acceleration_def target_speed_def calibrate_position_def
  is_stopped_def shift_down_def shift_up_def max_delay_of_def MICRO_LEVELS_def upt_6
  shift_loop.simps SHIFT_THRESHOLD_def DEFAULT_TARGET_DELAY_def target_pos_def step_def
  on_def off_def ENABLE_US_def Let_def

section \<open>step\<close>

lemma steps_id: "steps n s = s"
  by (induction n arbitrary: s) (simp_all add: step_def)

text \<open>
  C1 (arrival). The claim: from a stopped state with the target \<open>D\<close> steps away, repeated
  calls of \<^verbatim>\<open>step()\<close> bring the position error to 0. The code's \<^verbatim>\<open>step()\<close> only returns 0:
  on the default engine with the target 1000 steps away, after any number \<open>n\<close> of calls the
  position is still 0, the target still 1000, and the next call again reports 0.
\<close>

theorem step_stub_never_arrives:
  "m_pos (steps n (target_pos default_state 1000)) = 0
   \<and> m_target_pos (steps n (target_pos default_state 1000)) = 1000
   \<and> snd (step (steps n (target_pos default_state 1000))) = 0"
  by (simp add: steps_id step_def target_pos_def default_state_def)

section \<open>Guarded mutators\<close>

text \<open>
  C2 (guarded mutation). When the engine is not stopped, \<^verbatim>\<open>acceleration()\<close> and
  \<^verbatim>\<open>calibrate_position()\<close> return with every field of the state unchanged.
\<close>

theorem guarded_mutation_noop:
  assumes "\<not> is_stopped s"
  shows "acceleration s entry = Some s \<and> calibrate_position s p = Some s"
  using assms by (simp add: acceleration_def calibrate_position_def)

text \<open>C2 at the moving default engine.\<close>

theorem guarded_mutation_noop_witness:
  "\<not> is_stopped moving_state
   \<and> acceleration moving_state default_entry = Some moving_state
   \<and> calibrate_position moving_state 7 = Some moving_state"
proof -
  have h: "\<not> is_stopped moving_state"
    by (simp add: moving_state_def is_stopped_def target_pos_def default_state_def)
  from guarded_mutation_noop [OF h, of default_entry 7] h show ?thesis by simp
qed

section \<open>target_speed\<close>

lemma max_delay_of_nonzero_target: "m_target_delay s \<noteq> 0 \<Longrightarrow> max_delay_of s \<noteq> 0"
  unfolding max_delay_of_def
  by (metis max.cobounded1 max.cobounded2 word_le_0_iff)

lemma shift_up_state:
  assumes "shift_up s = Some s'"
  shows "m_state s' = m_state s \<and> m_pos s' = m_pos s \<and> m_target_pos s' = m_target_pos s
         \<and> m_accel_steps s' = m_accel_steps s \<and> m_micro s' = m_micro s"
  using assms by (auto simp: shift_up_def split: if_splits option.splits)

lemma shift_up_returns:
  assumes "m_shift s = 0" "max_delay_of s \<noteq> 0"
  shows "\<exists>s'. shift_up s = Some s'"
  using shift_up_Some [OF assms] by blast

text \<open>
  C4 (immediate deceleration). When the engine is not stopped and its phase is not OFF,
  \<^verbatim>\<open>target_speed()\<close> with a new target delay above the current (unshifted) delay returns
  and leaves the phase DECEL, whatever the phase was (ACCEL, TARGET_SPEED or DECEL).
\<close>

theorem target_speed_lower_forces_DECEL:
  assumes "\<not> is_stopped s" "m_state s \<noteq> OFF" "unat (m_shift s) < 32"
    and "drop_bit (unat (m_shift s)) (m_delay s) < td"
  shows "\<exists>s'. target_speed s td = Some s' \<and> m_state s' = DECEL"
proof -
  let ?s2 = "(shift_down s)\<lparr> m_target_delay := td, m_state := DECEL \<rparr>"
  have eq: "target_speed s td = shift_up ?s2"
    using assms by (simp add: target_speed_def is_stopped_def shift_down_def Let_def)
  have "td \<noteq> 0" using assms(4) by (metis word_not_simps(1))
  then have "max_delay_of ?s2 \<noteq> 0" by (simp add: max_delay_of_nonzero_target)
  moreover have "m_shift ?s2 = 0" by (simp add: shift_down_def)
  ultimately obtain s' where s': "shift_up ?s2 = Some s'" using shift_up_returns by blast
  then have "m_state s' = DECEL" using shift_up_state [OF s'] by simp
  with eq s' show ?thesis by simp
qed

section \<open>The constructor\<close>

text \<open>
  C9 (initial phase). The claim: after construction the phase is OFF. For every argument
  list the constructor returns, and the phase of the engine it builds is ACCEL.
\<close>

theorem ctor_state_is_ACCEL:
  "\<exists>s. stepper_ctor dp sp ep m0 m1 m2 fv sd uninit entry = Some s \<and> m_state s = ACCEL"
proof -
  let ?i = "stepper_init dp sp ep m0 m1 m2 fv sd uninit"
  let ?s3 = "(shift_down ?i)\<lparr> m_delay := m_delay0 (shift_down ?i) ! unat (m_micro (shift_down ?i)),
                m_delay0 := map entry [0..<MICRO_LEVELS] \<rparr>"
  have acc: "acceleration ?i entry = shift_up ?s3"
    by (simp add: acceleration_def is_stopped_def stepper_init_def Let_def)
  have "m_target_delay ?s3 \<noteq> 0" by (simp add: shift_down_def stepper_init_def)
  then have "max_delay_of ?s3 \<noteq> 0" by (rule max_delay_of_nonzero_target)
  moreover have "m_shift ?s3 = 0" by (simp add: shift_down_def)
  ultimately obtain s1 where s1: "shift_up ?s3 = Some s1" using shift_up_returns by blast
  from shift_up_state [OF s1] have st1: "m_state s1 = ACCEL" "is_stopped s1"
    by (simp_all add: shift_down_def stepper_init_def is_stopped_def)
  let ?t = "(shift_down s1)\<lparr> m_target_delay := DEFAULT_TARGET_DELAY \<rparr>"
  have ts: "target_speed s1 DEFAULT_TARGET_DELAY = shift_up ?t"
    using st1 by (simp add: target_speed_def is_stopped_def shift_down_def Let_def)
  have "max_delay_of ?t \<noteq> 0"
    by (rule max_delay_of_nonzero_target) (simp add: DEFAULT_TARGET_DELAY_def)
  moreover have "m_shift ?t = 0" by (simp add: shift_down_def)
  ultimately obtain s2 where s2: "shift_up ?t = Some s2" using shift_up_returns by blast
  from shift_up_state [OF s2] st1 have "m_state s2 = ACCEL" by (simp add: shift_down_def)
  with acc s1 ts s2 show ?thesis by (simp add: stepper_ctor_def)
qed

section \<open>What shift_up establishes\<close>

lemma aligned_push_bit: "aligned k (push_bit k x)"
  unfolding aligned_def
  by (rule bit_word_eqI) (auto simp: bit_simps)

lemma unat_push_bit_no_overflow:
  fixes x :: u32
  assumes "unat x * 2 ^ k < 2 ^ 32"
  shows "unat (push_bit k x) = unat x * 2 ^ k"
  using assms by (simp only: unat_push_bit_u32) simp

lemma unat_drop_bit_u32: "unat (drop_bit k (x :: u32)) = unat x div 2 ^ k"
  by (simp only: unat_drop_bit_eq) (simp add: drop_bit_eq_div)

lemma drop_bit_mono_u32: "(a :: u32) \<le> b \<Longrightarrow> drop_bit k a \<le> drop_bit k b"
  by (simp add: word_le_nat_alt unat_drop_bit_u32 div_le_mono)

lemma drop_bit_max_u32: "drop_bit k (max a b) = max (drop_bit k a) (drop_bit k (b :: u32))"
proof (cases "a \<le> b")
  case True
  then have "drop_bit k a \<le> drop_bit k b" by (rule drop_bit_mono_u32)
  with True show ?thesis by (simp add: max_def)
next
  case False
  then have "b \<le> a" by simp
  then have "drop_bit k b \<le> drop_bit k a" by (rule drop_bit_mono_u32)
  with False show ?thesis by (auto simp: max_def)
qed

lemma push_bit_mono_u32:
  fixes a b :: u32
  assumes "a \<le> b" "unat b * 2 ^ k < 2 ^ 32"
  shows "push_bit k a \<le> push_bit k b"
proof -
  have ab: "unat a \<le> unat b" using assms(1) by (simp add: word_le_nat_alt)
  then have "unat a * 2 ^ k \<le> unat b * 2 ^ k" by simp
  with assms(2) have "unat a * 2 ^ k < 2 ^ 32" by linarith
  with assms(2) ab show ?thesis
    by (simp add: word_le_nat_alt unat_push_bit_no_overflow)
qed

lemma push_bit_max_u32:
  fixes a b :: u32
  assumes "unat (max a b) * 2 ^ k < 2 ^ 32"
  shows "push_bit k (max a b) = max (push_bit k a) (push_bit k b)"
proof (cases "a \<le> b")
  case True
  then have "push_bit k a \<le> push_bit k b"
    using assms by (intro push_bit_mono_u32) (simp_all add: max_def)
  with True show ?thesis by (simp add: max_def)
next
  case False
  then have ba: "b \<le> a" by simp
  then have "push_bit k b \<le> push_bit k a"
    using assms False by (intro push_bit_mono_u32) (simp_all add: max_def)
  with False ba show ?thesis by (auto simp: max_def intro: antisym)
qed

lemma max_delay_of_shift_down:
  assumes "length (m_delay0 s) = MICRO_LEVELS"
  shows "max_delay_of (shift_down s) = drop_bit (unat (m_shift s)) (max_delay_of s)"
  using assms by (simp add: max_delay_of_def shift_down_def drop_bit_max_u32 MICRO_LEVELS_def)

lemma max_delay_of_scale_delays:
  assumes "length (m_delay0 s) = MICRO_LEVELS" "unat (max_delay_of s) * 2 ^ k < 2 ^ 32"
  shows "max_delay_of (scale_delays k s) = push_bit k (max_delay_of s)"
proof -
  let ?a = "m_delay0 s ! (MICRO_LEVELS - 1)" and ?b = "m_target_delay s" and ?c = "m_smooth_delay s"
  have M: "max_delay_of s = max (max ?a ?b) ?c" by (simp add: max_delay_of_def)
  have "max ?a ?b \<le> max_delay_of s" unfolding M by simp
  then have "unat (max ?a ?b) * 2 ^ k \<le> unat (max_delay_of s) * 2 ^ k"
    by (simp add: word_le_nat_alt)
  with assms(2) have 1: "unat (max ?a ?b) * 2 ^ k < 2 ^ 32" by linarith
  have "push_bit k (max (max ?a ?b) ?c) = max (push_bit k (max ?a ?b)) (push_bit k ?c)"
    using assms(2) unfolding M by (rule push_bit_max_u32)
  also have "push_bit k (max ?a ?b) = max (push_bit k ?a) (push_bit k ?b)"
    using 1 by (rule push_bit_max_u32)
  finally show ?thesis
    using assms(1) by (simp add: max_delay_of_def scale_delays_def MICRO_LEVELS_def)
qed

lemma shift_up_normalised:
  assumes "m_shift s = 0" "length (m_delay0 s) = MICRO_LEVELS" "unat (m_micro s) < MICRO_LEVELS"
    and "shift_up s = Some s'"
  shows "normalised s'"
proof -
  have nz: "max_delay_of s \<noteq> 0"
    using assms(1,4) shift_up_None by fastforce
  from shift_up_Some [OF assms(1) nz] assms(4) obtain k where k:
    "k \<le> 30" "s' = scale_delays k s"
    "2 ^ 30 \<le> unat (max_delay_of s) * 2 ^ k"
    "0 < k \<longrightarrow> unat (max_delay_of s) * 2 ^ k < 2 ^ 31" by auto
  have bound: "unat (max_delay_of s) * 2 ^ k < 2 ^ 32"
  proof (cases "k = 0")
    case True
    have "unat (max_delay_of s) < 2 ^ 32" using unsigned_less [of "max_delay_of s"] by simp
    with True show ?thesis by simp
  next
    case False
    with k(4) show ?thesis by simp
  qed
  have M: "max_delay_of s' = push_bit k (max_delay_of s)"
    unfolding k(2) using assms(2) bound by (rule max_delay_of_scale_delays)
  have uM: "unat (max_delay_of s') = unat (max_delay_of s) * 2 ^ k"
    unfolding M using bound by (rule unat_push_bit_no_overflow)
  have sh: "unat (m_shift s') = k" using k(1) by (simp add: k(2) scale_delays_def unat_of_nat_u8)
  have "SHIFT_THRESHOLD \<le> max_delay_of s'"
    using k(3) uM by (simp add: word_le_nat_alt unat_threshold)
  moreover have "m_shift s' \<noteq> 0 \<longrightarrow> unat (max_delay_of s') < 2 ^ 31"
  proof
    assume "m_shift s' \<noteq> 0"
    then have "0 < k" using sh by (simp flip: unat_gt_0)
    with k(4) uM show "unat (max_delay_of s') < 2 ^ 31" by simp
  qed
  moreover have "list_all (aligned k) (m_delay0 s')"
    by (simp add: k(2) scale_delays_def list_all_iff aligned_push_bit)
  ultimately show ?thesis
    using assms(2,3) k(1) sh
    by (simp add: normalised_def k(2) scale_delays_def aligned_push_bit)
qed

lemma round_trip_normalised:
  assumes "normalised s"
  shows "shift_up (shift_down s) = Some s"
proof -
  let ?k = "unat (m_shift s)"
  let ?M = "max_delay_of s"
  let ?m = "max_delay_of (shift_down s)"
  from assms have n:
    "?k \<le> 30" "length (m_delay0 s) = MICRO_LEVELS" "SHIFT_THRESHOLD \<le> ?M"
    "m_shift s \<noteq> 0 \<longrightarrow> unat ?M < 2 ^ 31"
    "list_all (aligned ?k) (m_delay0 s)" "aligned ?k (m_delay s)"
    "aligned ?k (m_target_delay s)" "aligned ?k (m_smooth_delay s)"
    by (simp_all add: normalised_def)
  have m: "?m = drop_bit ?k ?M" using n(2) by (rule max_delay_of_shift_down)
  have "aligned ?k (m_delay0 s ! (MICRO_LEVELS - 1))"
    using n(5) n(2) by (simp add: list_all_length MICRO_LEVELS_def)
  then have aM: "aligned ?k ?M"
    using n(7,8) by (simp add: max_delay_of_def max_def)
  have "unat ?m * 2 ^ ?k \<le> unat ?M" by (simp add: m unat_drop_bit_u32)
  moreover have "unat ?M < 2 ^ 32" using unsigned_less [of ?M] by simp
  ultimately have "unat ?m * 2 ^ ?k < 2 ^ 32" by linarith
  then have "unat (push_bit ?k ?m) = unat ?m * 2 ^ ?k" by (rule unat_push_bit_no_overflow)
  moreover have "push_bit ?k ?m = ?M" using aM by (simp add: m aligned_def)
  ultimately have uM: "unat ?M = unat ?m * 2 ^ ?k" by simp
  have ge: "2 ^ 30 \<le> unat ?M" using n(3) by (simp add: word_le_nat_alt unat_threshold)
  have nz: "?m \<noteq> 0"
  proof
    assume "?m = 0"
    then have "unat ?m = 0" by simp
    with uM ge show False by simp
  qed
  have sh0: "m_shift (shift_down s) = 0" by (simp add: shift_down_def)
  from shift_up_Some [OF sh0 nz] obtain k' where k':
    "k' \<le> 30" "shift_up (shift_down s) = Some (scale_delays k' (shift_down s))"
    "2 ^ 30 \<le> unat ?m * 2 ^ k'" "\<forall>j<k'. unat ?m * 2 ^ j < 2 ^ 30" by blast
  have "k' = ?k"
  proof (rule antisym)
    show "k' \<le> ?k"
    proof (rule ccontr)
      assume "\<not> k' \<le> ?k"
      then have "unat ?m * 2 ^ ?k < 2 ^ 30" using k'(4) by simp
      with uM ge show False by simp
    qed
    show "?k \<le> k'"
    proof (rule ccontr)
      assume "\<not> ?k \<le> k'"
      then have lt: "k' < ?k" by simp
      then have "m_shift s \<noteq> 0" by auto
      with n(4) have "unat ?M < 2 ^ 31" by simp
      moreover have "2 ^ ?k = (2::nat) ^ k' * 2 ^ (?k - k')"
        using lt by (simp flip: power_add)
      moreover have "(2::nat) \<le> 2 ^ (?k - k')"
        using lt power_increasing [of 1 "?k - k'" "2::nat"] by simp
      ultimately have "unat ?m * 2 ^ k' * 2 < 2 ^ 31"
        using uM by (metis (no_types, lifting) mult.assoc mult_le_mono2 order_le_less_trans)
      with k'(3) show False by simp
    qed
  qed
  moreover have "scale_delays ?k (shift_down s) = s"
  proof -
    have "map (push_bit ?k) (map (drop_bit ?k) (m_delay0 s)) = m_delay0 s"
      using n(5) by (simp add: list_all_iff aligned_def map_idI)
    then show ?thesis
      using n(6,7,8) by (simp add: scale_delays_def shift_down_def aligned_def)
  qed
  ultimately show ?thesis using k'(2) by simp
qed

section \<open>The states an engine can be in\<close>

lemma target_speed_normalised:
  assumes "length (m_delay0 s) = MICRO_LEVELS" "unat (m_micro s) < MICRO_LEVELS"
    and "target_speed s td = Some s'"
  shows "normalised s'"
proof -
  obtain s2 where s2: "target_speed s td = shift_up s2" "m_shift s2 = 0"
    "length (m_delay0 s2) = MICRO_LEVELS" "unat (m_micro s2) < MICRO_LEVELS"
    using assms(1,2) by (simp add: target_speed_def shift_down_def Let_def)
  with assms(3) show ?thesis by (auto intro: shift_up_normalised)
qed

lemma acceleration_stopped_normalised:
  assumes "is_stopped s" "unat (m_micro s) < MICRO_LEVELS" "acceleration s entry = Some s'"
  shows "normalised s'"
proof -
  obtain s3 where s3: "acceleration s entry = shift_up s3" "m_shift s3 = 0"
    "length (m_delay0 s3) = MICRO_LEVELS" "unat (m_micro s3) < MICRO_LEVELS"
    using assms(1,2) by (simp add: acceleration_def shift_down_def Let_def)
  with assms(3) show ?thesis by (auto intro: shift_up_normalised)
qed

lemma acceleration_normalised:
  assumes "normalised s" "acceleration s entry = Some s'"
  shows "normalised s'"
proof (cases "is_stopped s")
  case True
  moreover have "unat (m_micro s) < MICRO_LEVELS" using assms(1) by (simp add: normalised_def)
  ultimately show ?thesis using assms(2) by (rule acceleration_stopped_normalised)
next
  case False
  with assms show ?thesis by (simp add: acceleration_def)
qed

lemma calibrate_position_normalised:
  assumes "normalised s" "calibrate_position s p = Some s'"
  shows "normalised s'"
proof (cases "is_stopped s")
  case True
  let ?t = "(shift_down s)\<lparr> m_pos := p \<rparr>"
  have "m_shift ?t = 0" "length (m_delay0 ?t) = MICRO_LEVELS" "unat (m_micro ?t) < MICRO_LEVELS"
    using assms(1) by (simp_all add: shift_down_def normalised_def)
  moreover have "shift_up ?t = Some s'" using True assms(2) by (simp add: calibrate_position_def)
  ultimately show ?thesis by (rule shift_up_normalised)
next
  case False
  with assms show ?thesis by (simp add: calibrate_position_def)
qed

lemma off_normalised:
  assumes "normalised s"
  shows "normalised (fst (off s now))"
proof -
  have "aligned (unat (m_shift s)) (m_delay0 s ! unat (m_micro s))"
    using assms by (simp add: normalised_def list_all_length)
  then show ?thesis
    using assms by (simp add: normalised_def off_def max_delay_of_def)
qed

lemma ctor_normalised:
  assumes "stepper_ctor dp sp ep m0 m1 m2 fv sd uninit entry = Some s"
  shows "normalised s"
proof -
  let ?i = "stepper_init dp sp ep m0 m1 m2 fv sd uninit"
  from assms obtain s1 where s1: "acceleration ?i entry = Some s1"
    "target_speed s1 DEFAULT_TARGET_DELAY = Some s"
    by (auto simp: stepper_ctor_def split: option.splits)
  have "is_stopped ?i" "unat (m_micro ?i) < MICRO_LEVELS"
    by (simp_all add: stepper_init_def is_stopped_def MICRO_LEVELS_def)
  then have "normalised s1" using s1(1) by (rule acceleration_stopped_normalised)
  then have "length (m_delay0 s1) = MICRO_LEVELS" "unat (m_micro s1) < MICRO_LEVELS"
    by (simp_all add: normalised_def)
  then show ?thesis using s1(2) by (rule target_speed_normalised)
qed

lemma reachable_normalised: "reachable s \<Longrightarrow> normalised s"
proof (induction rule: reachable.induct)
  case (r_ctor dp sp ep m0 m1 m2 fv sd uninit entry s)
  then show ?case by (rule ctor_normalised)
next
  case (r_calibrate_position s p s')
  then show ?case by (auto intro: calibrate_position_normalised)
next
  case (r_on s now)
  then show ?case by (simp add: normalised_def on_def max_delay_of_def)
next
  case (r_off s now)
  then show ?case by (auto intro: off_normalised)
next
  case (r_acceleration s entry s')
  then show ?case by (auto intro: acceleration_normalised)
next
  case (r_target_pos s p)
  then show ?case by (simp add: normalised_def target_pos_def max_delay_of_def)
next
  case (r_target_speed s td s')
  then have "length (m_delay0 s) = MICRO_LEVELS" "unat (m_micro s) < MICRO_LEVELS"
    by (simp_all add: normalised_def)
  then show ?case using r_target_speed(2) by (rule target_speed_normalised)
next
  case (r_step s)
  then show ?case by (simp add: step_def)
qed

lemma default_state_reachable: "reachable default_state"
  using ctor_default by (rule r_ctor)

text \<open>
  C8 (round trip). In every state an engine can be in, \<^verbatim>\<open>shift_down()\<close> followed at once
  by \<^verbatim>\<open>shift_up()\<close> returns and restores the state, all delay fields included, exactly.
\<close>

theorem shift_round_trip:
  assumes "reachable s"
  shows "shift_up (shift_down s) = Some s"
  using assms by (intro round_trip_normalised reachable_normalised)

text \<open>C8 at the default engine.\<close>

theorem shift_round_trip_witness:
  "reachable default_state \<and> shift_up (shift_down default_state) = Some default_state"
  using shift_round_trip [OF default_state_reachable] default_state_reachable by simp

section \<open>target_speed on a moving engine\<close>

lemma accel_state_reachable: "reachable accel_state"
proof -
  have "reachable (fst (off default_state 0))"
    using default_state_reachable by (rule r_off)
  then have "reachable (fst (on (fst (off default_state 0)) 0))" by (rule r_on)
  then have "reachable (target_pos (fst (on (fst (off default_state 0)) 0)) 1000)"
    by (rule r_target_pos)
  moreover have "target_pos (fst (on (fst (off default_state 0)) 0)) 1000 = accel_state"
    by (simp add: accel_state_def default_state_def eval_defs)
  ultimately show ?thesis by simp
qed

lemma target_speed_accel_state: "target_speed accel_state 400000 = Some decel_state"
  by (simp add: decel_state_def accel_state_def default_state_def eval_defs)

lemma decel_state_reachable: "reachable decel_state"
  using accel_state_reachable target_speed_accel_state by (rule r_target_speed)

text \<open>C4 at the default engine moving in phase ACCEL, with the target delay raised to 400000.\<close>

theorem target_speed_lower_forces_DECEL_witness:
  "\<not> is_stopped accel_state \<and> m_state accel_state \<noteq> OFF \<and> unat (m_shift accel_state) < 32
   \<and> drop_bit (unat (m_shift accel_state)) (m_delay accel_state) < 400000
   \<and> map_option m_state (target_speed accel_state 400000) = Some DECEL"
proof -
  have h: "\<not> is_stopped accel_state" "m_state accel_state \<noteq> OFF"
    "unat (m_shift accel_state) < 32"
    "drop_bit (unat (m_shift accel_state)) (m_delay accel_state) < 400000"
    by (simp_all add: accel_state_def default_state_def is_stopped_def)
  from target_speed_lower_forces_DECEL [OF h] h show ?thesis by auto
qed

text \<open>
  C5, as claimed, fails: the engine \<open>decel_state\<close> is decelerating and not stopped; a call of
  \<^verbatim>\<open>target_speed()\<close> with target delay 100000, below its current delay 213769, leaves the
  phase ACCEL.
\<close>

theorem target_speed_deferral_counterexample:
  "m_state decel_state = DECEL \<and> \<not> is_stopped decel_state
   \<and> 100000 \<le> drop_bit (unat (m_shift decel_state)) (m_delay decel_state)
   \<and> map_option m_state (target_speed decel_state 100000) = Some ACCEL"
  by (simp add: decel_state_def accel_state_def default_state_def eval_defs)

text \<open>
  C5 (amended). When the engine is not stopped and its phase is not OFF (DECEL included),
  \<^verbatim>\<open>target_speed()\<close> with a new target delay at or below the current (unshifted) delay
  sets the phase to ACCEL on that call; the call returns unless the last table entry, the
  new target delay and the smooth delay are all 0.
\<close>

theorem target_speed_higher_sets_ACCEL:
  assumes "\<not> is_stopped s" "m_state s \<noteq> OFF" "unat (m_shift s) < 32"
    and "td \<le> drop_bit (unat (m_shift s)) (m_delay s)"
    and "max_delay_of ((shift_down s)\<lparr> m_target_delay := td \<rparr>) \<noteq> 0"
  shows "\<exists>s'. target_speed s td = Some s' \<and> m_state s' = ACCEL"
proof -
  let ?s2 = "(shift_down s)\<lparr> m_target_delay := td, m_state := ACCEL \<rparr>"
  have "\<not> drop_bit (unat (m_shift s)) (m_delay s) < td"
    using assms(4) by (rule leD)
  then have eq: "target_speed s td = shift_up ?s2"
    using assms(1,2) by (simp add: target_speed_def is_stopped_def shift_down_def Let_def)
  have "max_delay_of ?s2 \<noteq> 0" using assms(5) by (simp add: max_delay_of_def)
  moreover have "m_shift ?s2 = 0" by (simp add: shift_down_def)
  ultimately obtain s' where s': "shift_up ?s2 = Some s'" using shift_up_returns by blast
  then have "m_state s' = ACCEL" using shift_up_state [OF s'] by simp
  with eq s' show ?thesis by simp
qed

text \<open>C5 (amended) at the decelerating engine.\<close>

theorem target_speed_higher_sets_ACCEL_witness:
  "\<not> is_stopped decel_state \<and> m_state decel_state \<noteq> OFF \<and> unat (m_shift decel_state) < 32
   \<and> 100000 \<le> drop_bit (unat (m_shift decel_state)) (m_delay decel_state)
   \<and> max_delay_of ((shift_down decel_state)\<lparr> m_target_delay := 100000 \<rparr>) \<noteq> 0
   \<and> map_option m_state (target_speed decel_state 100000) = Some ACCEL"
proof -
  have h: "\<not> is_stopped decel_state" "m_state decel_state \<noteq> OFF"
    "unat (m_shift decel_state) < 32"
    "100000 \<le> drop_bit (unat (m_shift decel_state)) (m_delay decel_state)"
    "max_delay_of ((shift_down decel_state)\<lparr> m_target_delay := 100000 \<rparr>) \<noteq> 0"
    by (simp_all add: decel_state_def accel_state_def default_state_def is_stopped_def
        shift_down_def max_delay_of_def MICRO_LEVELS_def)
  from target_speed_higher_sets_ACCEL [OF h] h show ?thesis by auto
qed

section \<open>Termination of shift_up\<close>

lemma ctor_smooth_zero:
  "stepper_ctor 2 3 4 5 6 7 1 0 [0, 0, 0, 0, 0, 0] default_entry
     = Some (default_state\<lparr> m_smooth_delay := 0 \<rparr>)"
  by (simp add: default_entry_def default_state_def eval_defs)

lemma acceleration_zero_table:
  "acceleration (default_state\<lparr> m_smooth_delay := 0 \<rparr>) zero_entry = Some zero_table_state"
  by (simp add: zero_entry_def zero_table_state_def default_state_def eval_defs)

lemma zero_table_state_reachable: "reachable zero_table_state"
  using r_ctor [OF ctor_smooth_zero] acceleration_zero_table by (rule r_acceleration)

lemma target_speed_zero_table: "target_speed zero_table_state 0 = None"
proof -
  let ?t = "(shift_down zero_table_state)\<lparr> m_target_delay := 0 \<rparr>"
  have "target_speed zero_table_state 0 = shift_up ?t"
    by (simp add: target_speed_def zero_table_state_def default_state_def is_stopped_def Let_def
        shift_down_def)
  also have "\<dots> = None"
    by (rule shift_up_None)
      (simp_all add: zero_table_state_def default_state_def max_delay_of_def MICRO_LEVELS_def
        shift_down_def)
  finally show ?thesis .
qed

lemma shift_up_returns_iff:
  assumes "m_shift s = 0"
  shows "(\<exists>s'. shift_up s = Some s') \<longleftrightarrow> max_delay_of s \<noteq> 0"
  using assms shift_up_returns [of s] shift_up_None [of s] by auto

text \<open>
  C10 (termination of \<^verbatim>\<open>shift_up\<close>). Called with \<^verbatim>\<open>_shift == 0\<close>, \<^verbatim>\<open>shift_up()\<close> returns
  if and only if the largest of \<^verbatim>\<open>_delay0[MICRO_LEVELS - 1]\<close>, \<^verbatim>\<open>_target_delay\<close> and
  \<^verbatim>\<open>_smooth_delay\<close> is not 0. So \<^verbatim>\<open>target_speed()\<close> and, on a stopped engine,
  \<^verbatim>\<open>acceleration()\<close> and \<^verbatim>\<open>calibrate_position()\<close> do not return exactly when the three
  values they pass on are all 0, and some engine reachable through the public interface
  has a call of \<^verbatim>\<open>target_speed()\<close> that never returns.
\<close>

theorem shift_up_terminates_iff_nonzero:
  "(m_shift s = 0 \<longrightarrow> ((\<exists>s'. shift_up s = Some s') \<longleftrightarrow> max_delay_of s \<noteq> 0))
   \<and> (unat (m_shift s) < 32 \<longrightarrow>
        (target_speed s td = None
          \<longleftrightarrow> max_delay_of ((shift_down s)\<lparr> m_target_delay := td \<rparr>) = 0))
   \<and> (unat (m_shift s) < 32 \<and> is_stopped s \<longrightarrow>
        (acceleration s entry = None
          \<longleftrightarrow> max_delay_of ((shift_down s)\<lparr> m_delay0 := map entry [0..<MICRO_LEVELS] \<rparr>) = 0))
   \<and> (unat (m_shift s) < 32 \<and> is_stopped s \<longrightarrow>
        (calibrate_position s p = None \<longleftrightarrow> max_delay_of (shift_down s) = 0))
   \<and> (\<exists>r td'. reachable r \<and> target_speed r td' = None)"
proof (intro conjI impI)
  assume "m_shift s = 0"
  then show "(\<exists>s'. shift_up s = Some s') \<longleftrightarrow> max_delay_of s \<noteq> 0"
    by (rule shift_up_returns_iff)
next
  let ?t = "(shift_down s)\<lparr> m_target_delay := td \<rparr>"
  obtain s2 where s2: "target_speed s td = shift_up s2" "m_shift s2 = 0"
    "max_delay_of s2 = max_delay_of ?t"
    by (simp add: target_speed_def shift_down_def Let_def max_delay_of_def)
  show "target_speed s td = None \<longleftrightarrow> max_delay_of ?t = 0"
    using shift_up_returns_iff [OF s2(2)] s2(1,3) by auto
next
  assume "unat (m_shift s) < 32 \<and> is_stopped s"
  then have st: "is_stopped s" by simp
  let ?t = "(shift_down s)\<lparr> m_delay0 := map entry [0..<MICRO_LEVELS] \<rparr>"
  obtain s3 where s3: "acceleration s entry = shift_up s3" "m_shift s3 = 0"
    "max_delay_of s3 = max_delay_of ?t"
    using st by (simp add: acceleration_def shift_down_def Let_def max_delay_of_def)
  show "acceleration s entry = None \<longleftrightarrow> max_delay_of ?t = 0"
    using shift_up_returns_iff [OF s3(2)] s3(1,3) by auto
next
  assume "unat (m_shift s) < 32 \<and> is_stopped s"
  then have st: "is_stopped s" by simp
  obtain s1 where s1: "calibrate_position s p = shift_up s1" "m_shift s1 = 0"
    "max_delay_of s1 = max_delay_of (shift_down s)"
    using st by (simp add: calibrate_position_def shift_down_def max_delay_of_def)
  show "calibrate_position s p = None \<longleftrightarrow> max_delay_of (shift_down s) = 0"
    using shift_up_returns_iff [OF s1(2)] s1(1,3) by auto
next
  show "\<exists>r td'. reachable r \<and> target_speed r td' = None"
    using zero_table_state_reachable target_speed_zero_table by blast
qed

text \<open>C10 at a stopped engine whose delays are all 0.\<close>

theorem shift_up_terminates_iff_nonzero_witness:
  "m_shift all_zero_state = 0 \<and> unat (m_shift all_zero_state) < 32
   \<and> is_stopped all_zero_state \<and> max_delay_of all_zero_state = 0
   \<and> shift_up all_zero_state = None
   \<and> target_speed all_zero_state 0 = None
   \<and> acceleration all_zero_state zero_entry = None
   \<and> calibrate_position all_zero_state 5 = None"
proof -
  have h: "m_shift all_zero_state = 0" "unat (m_shift all_zero_state) < 32"
    "is_stopped all_zero_state" "max_delay_of all_zero_state = 0"
    "max_delay_of ((shift_down all_zero_state)\<lparr> m_target_delay := 0 \<rparr>) = 0"
    "max_delay_of ((shift_down all_zero_state)\<lparr> m_delay0 := map zero_entry [0..<MICRO_LEVELS] \<rparr>) = 0"
    "max_delay_of (shift_down all_zero_state) = 0"
    by (simp_all add: all_zero_state_def default_state_def is_stopped_def max_delay_of_def
        shift_down_def MICRO_LEVELS_def upt_6 zero_entry_def)
  from shift_up_terminates_iff_nonzero [of all_zero_state 0 zero_entry 5] h
  show ?thesis by (cases "shift_up all_zero_state") auto
qed

section \<open>The shift threshold\<close>

text \<open>
  C3, as claimed, fails. In the default engine's unshifted state the largest delay is
  already below the threshold with shift 0, yet \<^verbatim>\<open>shift_up()\<close> chooses shift 10, and in
  the resulting state (the state after construction) the largest delay and the last table
  entry are not below the threshold.
\<close>

theorem shift_threshold_counterexample:
  "m_shift (shift_down default_state) = 0
   \<and> push_bit 0 (max_delay_of (shift_down default_state)) < SHIFT_THRESHOLD
   \<and> shift_up (shift_down default_state) = Some default_state
   \<and> m_shift default_state = 10
   \<and> \<not> push_bit 10 (max_delay_of (shift_down default_state)) < SHIFT_THRESHOLD
   \<and> \<not> m_delay0 default_state ! 5 < SHIFT_THRESHOLD"
  by (simp add: default_state_def eval_defs)

text \<open>
  C3 (amended). \<^verbatim>\<open>shift_up()\<close> changes nothing when the shift is not 0. Otherwise, when the
  largest of the last table entry, the target delay and the smooth delay is not 0, it
  chooses the smallest shift \<open>k\<close> (at most 30) that brings this largest value up to the
  threshold or above, and multiplies every delay field by \<open>2 ^ k\<close>. In every state an engine
  can be in, that largest value is at or above the threshold.
\<close>

theorem shift_up_contract:
  "(m_shift s \<noteq> 0 \<longrightarrow> shift_up s = Some s)
   \<and> (m_shift s = 0 \<and> max_delay_of s \<noteq> 0 \<longrightarrow>
        (\<exists>k\<le>30. shift_up s = Some (scale_delays k s)
           \<and> 2 ^ 30 \<le> unat (max_delay_of s) * 2 ^ k
           \<and> (\<forall>j<k. unat (max_delay_of s) * 2 ^ j < 2 ^ 30)))
   \<and> (reachable s \<longrightarrow> SHIFT_THRESHOLD \<le> max_delay_of s)"
proof (intro conjI impI)
  assume "m_shift s \<noteq> 0"
  then show "shift_up s = Some s" by (rule shift_up_shifted)
next
  assume "m_shift s = 0 \<and> max_delay_of s \<noteq> 0"
  then have "m_shift s = 0" "max_delay_of s \<noteq> 0" by simp_all
  from shift_up_Some [OF this]
  show "\<exists>k\<le>30. shift_up s = Some (scale_delays k s)
           \<and> 2 ^ 30 \<le> unat (max_delay_of s) * 2 ^ k
           \<and> (\<forall>j<k. unat (max_delay_of s) * 2 ^ j < 2 ^ 30)" by blast
next
  assume "reachable s"
  then have "normalised s" by (rule reachable_normalised)
  then show "SHIFT_THRESHOLD \<le> max_delay_of s" by (simp add: normalised_def)
qed

text \<open>C3 (amended) at the default engine and at its unshifted state.\<close>

theorem shift_up_contract_witness:
  "m_shift default_state \<noteq> 0 \<and> shift_up default_state = Some default_state
   \<and> reachable default_state \<and> SHIFT_THRESHOLD \<le> max_delay_of default_state
   \<and> m_shift (shift_down default_state) = 0 \<and> max_delay_of (shift_down default_state) \<noteq> 0
   \<and> shift_up (shift_down default_state) \<noteq> None"
proof -
  have h: "m_shift default_state \<noteq> 0" "m_shift (shift_down default_state) = 0"
    "max_delay_of (shift_down default_state) \<noteq> 0"
    by (simp_all add: default_state_def shift_down_def max_delay_of_def MICRO_LEVELS_def)
  from shift_up_contract [of default_state] shift_up_contract [of "shift_down default_state"]
    h default_state_reachable
  show ?thesis by auto
qed

section \<open>Floating-point rounding\<close>

lemma round_even_error: "\<bar>of_int (round_even q) - q\<bar> \<le> 1 / 2"
  unfolding round_even_def Let_def by (auto simp: abs_le_iff)

lemma round_even_of_int: "round_even (of_int n) = n"
  by (simp add: round_even_def)

lemma round_even_mono: "q \<le> q' \<Longrightarrow> round_even q \<le> round_even q'"
proof -
  assume le: "q \<le> q'"
  have fl: "\<lfloor>q\<rfloor> \<le> \<lfloor>q'\<rfloor>" using le by (rule floor_mono)
  have lo: "\<lfloor>x\<rfloor> \<le> round_even x" and hi: "round_even x \<le> \<lfloor>x\<rfloor> + 1" for x
    by (simp_all add: round_even_def Let_def)
  show ?thesis
  proof (cases "\<lfloor>q\<rfloor> = \<lfloor>q'\<rfloor>")
    case True
    with le show ?thesis by (auto simp: round_even_def Let_def)
  next
    case False
    with fl have "\<lfloor>q\<rfloor> + 1 \<le> \<lfloor>q'\<rfloor>" by simp
    with hi [of q] lo [of q'] show ?thesis by linarith
  qed
qed

text \<open>The unit in the last place of \<open>x\<close>, and the binade of \<open>x\<close>.\<close>

lemma ulp_bounds:
  fixes f :: nat
  assumes "0 < x"
  defines "u \<equiv> (2::real) powr (of_int \<lfloor>log 2 x\<rfloor> - of_nat f)"
  shows "0 < u" "u * 2 ^ f \<le> x" "x < u * 2 ^ Suc f"
proof -
  let ?e = "of_int \<lfloor>log 2 x\<rfloor> :: real"
  show "0 < u" by (simp add: u_def)
  have uf: "u * 2 ^ f = 2 powr ?e"
    by (simp add: u_def powr_diff powr_realpow)
  have "2 powr ?e \<le> 2 powr (log 2 x)" by (rule powr_mono) simp_all
  also have "\<dots> = x" using assms(1) by simp
  finally have "2 powr ?e \<le> x" .
  then show "u * 2 ^ f \<le> x" by (simp only: uf)
  have "x = 2 powr (log 2 x)" using assms(1) by simp
  also have "\<dots> < 2 powr (?e + 1)"
  proof (rule powr_less_mono)
    show "log 2 x < ?e + 1" by linarith
  qed simp
  also have "\<dots> = 2 powr ?e * 2" by (simp add: powr_add)
  finally have "x < 2 powr ?e * 2" .
  then have "x < u * 2 ^ f * 2" by (simp only: uf)
  then show "x < u * 2 ^ Suc f" by simp
qed

lemma round_sig_pos:
  assumes "0 < x"
  shows "round_sig f x
    = 2 powr (of_int \<lfloor>log 2 x\<rfloor> - of_nat f)
        * of_int (round_even (x / 2 powr (of_int \<lfloor>log 2 x\<rfloor> - of_nat f)))"
  using assms by (simp add: round_sig_def Let_def)

lemma round_sig_zero: "round_sig f 0 = 0"
  by (simp add: round_sig_def)

lemma round_sig_error:
  assumes "0 < x"
  shows "\<bar>round_sig f x - x\<bar> \<le> x / 2 ^ Suc f"
proof -
  define u where "u = (2::real) powr (of_int \<lfloor>log 2 x\<rfloor> - of_nat f)"
  have u: "0 < u" "u * 2 ^ f \<le> x" unfolding u_def using assms by (rule ulp_bounds)+
  let ?n = "of_int (round_even (x / u)) :: real"
  have "round_sig f x - x = u * (?n - x / u)"
    using u(1) by (simp add: round_sig_pos [OF assms] u_def [symmetric] algebra_simps)
  then have "\<bar>round_sig f x - x\<bar> = u * \<bar>?n - x / u\<bar>"
    using u(1) by (simp add: abs_mult)
  also have "\<dots> \<le> u * (1 / 2)"
    using u(1) round_even_error [of "x / u"] by (intro mult_left_mono) simp_all
  also have "\<dots> \<le> x / 2 ^ Suc f" using u(2) by (simp add: field_simps)
  finally show ?thesis .
qed

lemma round_sig_bounds:
  assumes "0 \<le> x"
  shows "x * (1 - 1 / 2 ^ Suc f) \<le> round_sig f x" "round_sig f x \<le> x * (1 + 1 / 2 ^ Suc f)"
proof -
  have "x * (1 - 1 / 2 ^ Suc f) \<le> round_sig f x \<and> round_sig f x \<le> x * (1 + 1 / 2 ^ Suc f)"
  proof (cases "x = 0")
    case True
    then show ?thesis by (simp add: round_sig_zero)
  next
    case False
    with assms have "0 < x" by simp
    define d where "d = x / 2 ^ Suc f"
    from round_sig_error [OF \<open>0 < x\<close>] have "\<bar>round_sig f x - x\<bar> \<le> d"
      by (simp only: d_def)
    then have le: "x - d \<le> round_sig f x \<and> round_sig f x \<le> x + d" by linarith
    have eq: "x * (1 - 1 / 2 ^ Suc f) = x - d" "x * (1 + 1 / 2 ^ Suc f) = x + d"
      by (simp_all add: d_def algebra_simps)
    show ?thesis unfolding eq by (rule le)
  qed
  then show "x * (1 - 1 / 2 ^ Suc f) \<le> round_sig f x"
    "round_sig f x \<le> x * (1 + 1 / 2 ^ Suc f)"
    by simp_all
qed

lemma round_sig_nonneg: "0 \<le> x \<Longrightarrow> 0 \<le> round_sig f x"
proof -
  assume x: "0 \<le> x"
  have "(1::real) \<le> 2 ^ Suc f" by (rule one_le_power) simp
  then have "(1::real) / 2 ^ Suc f \<le> 1" by (simp add: field_simps)
  then have "0 \<le> x * (1 - 1 / 2 ^ Suc f)" using x by (intro mult_nonneg_nonneg) simp_all
  with round_sig_bounds(1) [OF x, of f] show ?thesis by linarith
qed

text \<open>Rounding is monotone.\<close>

lemma round_sig_mono_pos:
  assumes "0 < x" "x \<le> y"
  shows "round_sig f x \<le> round_sig f y"
proof -
  have y: "0 < y" using assms by simp
  define ex where "ex = \<lfloor>log 2 x\<rfloor>"
  define ey where "ey = \<lfloor>log 2 y\<rfloor>"
  define ux where "ux = (2::real) powr (of_int ex - of_nat f)"
  define uy where "uy = (2::real) powr (of_int ey - of_nat f)"
  have ux: "0 < ux" "ux * 2 ^ f \<le> x" "x < ux * 2 ^ Suc f"
    unfolding ux_def ex_def using assms(1) by (rule ulp_bounds)+
  have uy: "0 < uy" "uy * 2 ^ f \<le> y" "y < uy * 2 ^ Suc f"
    unfolding uy_def ey_def using y by (rule ulp_bounds)+
  have rx: "round_sig f x = ux * of_int (round_even (x / ux))"
    by (simp add: round_sig_pos [OF assms(1)] ux_def ex_def)
  have ry: "round_sig f y = uy * of_int (round_even (y / uy))"
    by (simp add: round_sig_pos [OF y] uy_def ey_def)
  have "log 2 x \<le> log 2 y" using assms by simp
  then have exy: "ex \<le> ey" unfolding ex_def ey_def by (rule floor_mono)
  show ?thesis
  proof (cases "ex = ey")
    case True
    then have same: "uy = ux" by (simp add: ux_def uy_def)
    have "x / ux \<le> y / ux" using assms(2) ux(1) by (simp add: divide_right_mono)
    then have "round_even (x / ux) \<le> round_even (y / ux)" by (rule round_even_mono)
    then have "ux * of_int (round_even (x / ux)) \<le> ux * of_int (round_even (y / ux))"
      using ux(1) by (intro mult_left_mono) simp_all
    then show ?thesis by (simp add: rx ry same)
  next
    case False
    with exy have lt: "ex + 1 \<le> ey" by simp
    have "x / ux \<le> of_int (2 ^ Suc f)"
      using ux(1,3) by (simp add: pos_divide_le_eq mult.commute)
    then have "round_even (x / ux) \<le> round_even (of_int (2 ^ Suc f))"
      by (rule round_even_mono)
    then have "round_even (x / ux) \<le> 2 ^ Suc f" by (simp only: round_even_of_int)
    then have "(of_int (round_even (x / ux)) :: real) \<le> of_int (2 ^ Suc f)"
      by (simp only: of_int_le_iff)
    then have "round_sig f x \<le> ux * of_int (2 ^ Suc f)"
      unfolding rx using ux(1) by (intro mult_left_mono) simp_all
    also have "ux * of_int (2 ^ Suc f) = 2 powr (of_int (ex + 1))"
      by (simp add: ux_def powr_diff powr_add powr_realpow)
    also have "\<dots> \<le> 2 powr (of_int ey)" using lt by (intro powr_mono) simp_all
    also have "\<dots> = uy * of_int (2 ^ f)" by (simp add: uy_def powr_diff powr_realpow)
    also have "\<dots> \<le> round_sig f y"
    proof -
      have "of_int (2 ^ f) \<le> y / uy"
        using uy(1,2) by (simp add: pos_le_divide_eq mult.commute)
      then have "round_even (of_int (2 ^ f)) \<le> round_even (y / uy)"
        by (rule round_even_mono)
      then have "2 ^ f \<le> round_even (y / uy)" by (simp only: round_even_of_int)
      then have "(of_int (2 ^ f) :: real) \<le> of_int (round_even (y / uy))"
        by (simp only: of_int_le_iff)
      then show ?thesis unfolding ry using uy(1) by (intro mult_left_mono) simp_all
    qed
    finally show ?thesis .
  qed
qed

lemma round_sig_mono:
  assumes "0 \<le> x" "x \<le> y"
  shows "round_sig f x \<le> round_sig f y"
proof (cases "x = 0")
  case True
  then show ?thesis using assms round_sig_nonneg [of y f] by (simp add: round_sig_zero)
next
  case False
  with assms(1) have "0 < x" by simp
  then show ?thesis using assms(2) by (rule round_sig_mono_pos)
qed

text \<open>A positive integer below \<open>2 ^ Suc f\<close> is not changed.\<close>

lemma round_sig_of_nat:
  assumes "0 < n" "n < 2 ^ Suc f"
  shows "round_sig f (real n) = real n"
proof -
  have pos: "0 < real n" using assms(1) by simp
  define e where "e = \<lfloor>log 2 (real n)\<rfloor>"
  define u where "u = (2::real) powr (of_int e - of_nat f)"
  have "1 \<le> real n" using assms(1) by simp
  then have "0 \<le> log 2 (real n)" by simp
  then have e0: "0 \<le> e" by (simp add: e_def)
  have "real n < 2 ^ Suc f" using assms(2) by (metis of_nat_less_iff of_nat_numeral of_nat_power)
  then have "real n < 2 powr (real (Suc f))" by (simp only: powr_realpow)
  then have "log 2 (real n) < real (Suc f)" using pos by (simp add: log_less_iff)
  then have ef: "e \<le> int f" unfolding e_def by linarith
  define j where "j = nat (int f - e)"
  have "of_int e - real f = - real j" using ef by (simp add: j_def)
  then have "u = 2 powr (- real j)" by (simp add: u_def)
  then have uj: "u = 1 / 2 ^ j" by (simp add: powr_minus powr_realpow divide_simps)
  then have q: "real n / u = of_int (int n * 2 ^ j)" by simp
  have "round_sig f (real n) = u * of_int (round_even (real n / u))"
    by (simp add: round_sig_pos [OF pos] u_def e_def)
  also have "\<dots> = u * of_int (int n * 2 ^ j)" by (simp only: q round_even_of_int)
  also have "\<dots> = real n" by (simp add: uj)
  finally show ?thesis .
qed

text \<open>The two precisions.\<close>

lemma round_double_zero: "round_double 0 = 0"
  by (simp add: round_double_def round_sig_zero)

lemma round_double_bounds:
  assumes "0 \<le> x"
  shows "x * (1 - 1 / 2 ^ 53) \<le> round_double x" "round_double x \<le> x * (1 + 1 / 2 ^ 53)"
  using round_sig_bounds [OF assms, of 52] by (simp_all add: round_double_def)

lemma round_double_nonneg: "0 \<le> x \<Longrightarrow> 0 \<le> round_double x"
  by (simp add: round_double_def round_sig_nonneg)

lemma round_double_mono: "0 \<le> x \<Longrightarrow> x \<le> y \<Longrightarrow> round_double x \<le> round_double y"
  by (simp add: round_double_def round_sig_mono)

lemma round_double_of_nat: "0 < n \<Longrightarrow> n < 2 ^ 53 \<Longrightarrow> round_double (real n) = real n"
  using round_sig_of_nat [of n 52] by (simp add: round_double_def)

lemma round_float_bounds:
  assumes "0 \<le> x"
  shows "x * (1 - 1 / 2 ^ 24) \<le> round_float x" "round_float x \<le> x * (1 + 1 / 2 ^ 24)"
  using round_sig_bounds [OF assms, of 23] by (simp_all add: round_float_def)

lemma round_float_nonneg: "0 \<le> x \<Longrightarrow> 0 \<le> round_float x"
  by (simp add: round_float_def round_sig_nonneg)

lemma round_float_of_nat: "0 < n \<Longrightarrow> n < 2 ^ 24 \<Longrightarrow> round_float (real n) = real n"
  using round_sig_of_nat [of n 23] by (simp add: round_float_def)

section \<open>The ramp table\<close>

lemma sqrt_pow2_bounds:
  assumes "m \<le> 5"
  shows "1 \<le> sqrt (2 ^ m)" "sqrt (2 ^ m) \<le> 6"
proof -
  have "(1::real) \<le> 2 ^ m" by simp
  then show "1 \<le> sqrt (2 ^ m)" by simp
  have "(2::real) ^ m \<le> 2 ^ 5" using assms by (intro power_increasing) simp_all
  then have "(2::real) ^ m \<le> 6\<^sup>2" by simp
  then show "sqrt (2 ^ m) \<le> 6" by (rule real_le_lsqrt [rotated]) simp
qed

lemma sqrt_double_mono: "m \<le> n \<Longrightarrow> round_double (sqrt (2 ^ m)) \<le> round_double (sqrt (2 ^ n))"
proof (rule round_double_mono)
  assume "m \<le> n"
  then have "(2::real) ^ m \<le> 2 ^ n" by (intro power_increasing) simp_all
  then show "sqrt (2 ^ m) \<le> sqrt (2 ^ n)" by simp
qed simp

lemma ramp_value_nonneg: "0 \<le> d0 \<Longrightarrow> 0 \<le> ramp_value d0 m"
  unfolding ramp_value_def by (intro round_double_nonneg mult_nonneg_nonneg) simp_all

lemma ramp_value_mono:
  assumes "0 \<le> d0" "m \<le> n"
  shows "ramp_value d0 m \<le> ramp_value d0 n"
  unfolding ramp_value_def
proof (rule round_double_mono)
  show "0 \<le> d0 * round_double (sqrt (2 ^ m))"
    using assms(1) by (intro mult_nonneg_nonneg round_double_nonneg) simp_all
  show "d0 * round_double (sqrt (2 ^ m)) \<le> d0 * round_double (sqrt (2 ^ n))"
    using assms by (intro mult_left_mono sqrt_double_mono)
qed

text \<open>Two roundings: the double is the real product up to the factor \<open>(1 \<plusminus> 2\<^sup>-\<^sup>5\<^sup>3)\<^sup>2\<close>.\<close>

lemma ramp_value_rel:
  assumes "0 \<le> d0"
  shows "d0 * sqrt (2 ^ m) * (1 - 1 / 2 ^ 53)\<^sup>2 \<le> ramp_value d0 m"
    and "ramp_value d0 m \<le> d0 * sqrt (2 ^ m) * (1 + 1 / 2 ^ 53)\<^sup>2"
proof -
  let ?r = "sqrt (2 ^ m)" and ?c = "round_double (sqrt (2 ^ m))"
  let ?lo = "1 - 1 / 2 ^ 53 :: real" and ?hi = "1 + 1 / 2 ^ 53 :: real"
  have r: "0 \<le> ?r" by simp
  have c: "?r * ?lo \<le> ?c" "?c \<le> ?r * ?hi" using r by (rule round_double_bounds)+
  have c0: "0 \<le> ?c" using r by (rule round_double_nonneg)
  have dc: "0 \<le> d0 * ?c" using assms c0 by simp
  have y: "d0 * ?c * ?lo \<le> ramp_value d0 m" "ramp_value d0 m \<le> d0 * ?c * ?hi"
    unfolding ramp_value_def using dc by (rule round_double_bounds)+
  have lo0: "0 \<le> ?lo" and hi0: "0 \<le> ?hi" by simp_all
  have "d0 * (?r * ?lo) \<le> d0 * ?c" using assms c(1) by (rule mult_left_mono [rotated])
  then have "d0 * (?r * ?lo) * ?lo \<le> d0 * ?c * ?lo" using lo0 by (rule mult_right_mono)
  then have "d0 * (?r * ?lo) * ?lo \<le> ramp_value d0 m" using y(1) by (rule order_trans)
  moreover have "d0 * (?r * ?lo) * ?lo = d0 * ?r * ?lo\<^sup>2" by (simp only: power2_eq_square ac_simps)
  ultimately show "d0 * ?r * ?lo\<^sup>2 \<le> ramp_value d0 m" by (simp only:)
  have "d0 * ?c \<le> d0 * (?r * ?hi)" using assms c(2) by (rule mult_left_mono [rotated])
  then have "d0 * ?c * ?hi \<le> d0 * (?r * ?hi) * ?hi" using hi0 by (rule mult_right_mono)
  with y(2) have "ramp_value d0 m \<le> d0 * (?r * ?hi) * ?hi" by (rule order_trans)
  moreover have "d0 * (?r * ?hi) * ?hi = d0 * ?r * ?hi\<^sup>2" by (simp only: power2_eq_square ac_simps)
  ultimately show "ramp_value d0 m \<le> d0 * ?r * ?hi\<^sup>2" by (simp only:)
qed

lemma rel_to_abs:
  fixes X y :: real
  assumes "0 \<le> X" "X < 2 ^ 33"
    and "X * (1 - 1 / 2 ^ 53)\<^sup>2 \<le> y" "y \<le> X * (1 + 1 / 2 ^ 53)\<^sup>2"
  shows "\<bar>y - X\<bar> \<le> 1 / 2 ^ 18"
proof -
  define a :: real where "a = (1 + 1 / 2 ^ 53)\<^sup>2 - 1"
  define b :: real where "b = 1 - (1 - 1 / 2 ^ 53)\<^sup>2"
  define t :: real where "t = 1 / 2 ^ 18"
  have a: "0 \<le> a" "2 ^ 33 * a \<le> t" by (simp_all add: a_def t_def power2_eq_square)
  have b: "0 \<le> b" "2 ^ 33 * b \<le> t" by (simp_all add: b_def t_def power2_eq_square)
  have "X * a \<le> 2 ^ 33 * a" using assms(2) a(1) by (intro mult_right_mono) simp_all
  then have Xa: "X * a \<le> t" using a(2) by (rule order_trans)
  have "X * b \<le> 2 ^ 33 * b" using assms(2) b(1) by (intro mult_right_mono) simp_all
  then have Xb: "X * b \<le> t" using b(2) by (rule order_trans)
  have "X * (1 + 1 / 2 ^ 53)\<^sup>2 = X + X * a" by (simp add: a_def algebra_simps)
  with assms(4) have up: "y \<le> X + X * a" by (simp only:)
  have "X * (1 - 1 / 2 ^ 53)\<^sup>2 = X - X * b" by (simp add: b_def algebra_simps)
  with assms(3) have lo: "X - X * b \<le> y" by (simp only:)
  from up lo Xa Xb have "\<bar>y - X\<bar> \<le> t" by linarith
  then show ?thesis by (simp only: t_def)
qed

lemma ramp_real_mono:
  assumes "0 \<le> d" "m \<le> n"
  shows "d * sqrt (2 ^ m) \<le> d * sqrt (2 ^ n)"
proof -
  have "(2::real) ^ m \<le> 2 ^ n" using assms(2) by (simp add: power_increasing)
  then have "sqrt (2 ^ m) \<le> sqrt (2 ^ n)" by simp
  then show ?thesis using assms(1) by (rule mult_left_mono)
qed

lemma ramp_value_abs:
  assumes "0 \<le> d0" "m \<le> 5" "ramp_value d0 5 < 2 ^ 32"
  shows "\<bar>ramp_value d0 m - d0 * sqrt (2 ^ m)\<bar> \<le> 1 / 2 ^ 18"
proof (rule rel_to_abs)
  show "0 \<le> d0 * sqrt (2 ^ m)" using assms(1) by simp
  show "d0 * sqrt (2 ^ m) * (1 - 1 / 2 ^ 53)\<^sup>2 \<le> ramp_value d0 m"
    and "ramp_value d0 m \<le> d0 * sqrt (2 ^ m) * (1 + 1 / 2 ^ 53)\<^sup>2"
    using assms(1) by (rule ramp_value_rel)+
  let ?X = "d0 * sqrt (2 ^ 5)"
  have X0: "0 \<le> ?X" using assms(1) by simp
  have "?X * (1 - 1 / 2 ^ 53)\<^sup>2 \<le> ramp_value d0 5" using assms(1) by (rule ramp_value_rel)
  with assms(3) have lt: "?X * (1 - 1 / 2 ^ 53)\<^sup>2 < 2 ^ 32" by simp
  have half: "(1::real) / 2 \<le> (1 - 1 / 2 ^ 53)\<^sup>2" by (simp add: power2_eq_square)
  have "?X * (1 / 2) \<le> ?X * (1 - 1 / 2 ^ 53)\<^sup>2" using half X0 by (rule mult_left_mono)
  then have "?X * (1 / 2) < 2 ^ 32" using lt by (rule order_le_less_trans)
  then have "?X < 2 ^ 33" by simp
  moreover have "d0 * sqrt (2 ^ m) \<le> ?X" using assms(1,2) by (rule ramp_real_mono)
  ultimately show "d0 * sqrt (2 ^ m) < 2 ^ 33" by (rule order_le_less_trans [rotated])
qed

lemma uint_ramp_entry:
  assumes "0 \<le> d0" "ramp_value d0 5 < 2 ^ 32" "m \<le> 5"
  shows "uint (ramp_entry d0 m) = \<lfloor>ramp_value d0 m\<rfloor>"
proof -
  let ?y = "ramp_value d0 m"
  have y0: "0 \<le> ?y" using assms(1) by (rule ramp_value_nonneg)
  have "?y \<le> ramp_value d0 5" using assms(1,3) by (rule ramp_value_mono)
  with assms(2) have "?y < 2 ^ 32" by simp
  then have "\<lfloor>?y\<rfloor> < 2 ^ 32" by (simp add: floor_less_iff)
  moreover have "0 \<le> \<lfloor>?y\<rfloor>" using y0 by simp
  ultimately have "uint (word_of_int \<lfloor>?y\<rfloor> :: u32) = \<lfloor>?y\<rfloor>"
    by (simp add: uint_word_of_int take_bit_int_eq_self)
  then show ?thesis by (simp add: ramp_entry_def)
qed

lemma ramp_entry_mono:
  assumes "0 \<le> d0" "ramp_value d0 5 < 2 ^ 32" "m \<le> n" "n \<le> 5"
  shows "ramp_entry d0 m \<le> ramp_entry d0 n"
proof -
  have "\<lfloor>ramp_value d0 m\<rfloor> \<le> \<lfloor>ramp_value d0 n\<rfloor>"
    using assms(1,3) by (intro floor_mono ramp_value_mono)
  moreover have "m \<le> 5" using assms(3,4) by simp
  ultimately have "uint (ramp_entry d0 m) \<le> uint (ramp_entry d0 n)"
    using assms by (simp add: uint_ramp_entry)
  then show ?thesis by (simp add: word_le_def)
qed

lemma shift_up_Some_bound:
  assumes "m_shift s = 0" "max_delay_of s \<noteq> 0"
  shows "\<exists>k\<le>30. shift_up s = Some (scale_delays k s) \<and> unat (max_delay_of s) * 2 ^ k < 2 ^ 32"
proof -
  from shift_up_Some [OF assms] obtain k where k:
    "k \<le> 30" "shift_up s = Some (scale_delays k s)"
    "0 < k \<longrightarrow> unat (max_delay_of s) * 2 ^ k < 2 ^ 31" by blast
  have "unat (max_delay_of s) * 2 ^ k < 2 ^ 32"
  proof (cases "k = 0")
    case True
    have "unat (max_delay_of s) < 2 ^ 32" using unsigned_less [of "max_delay_of s"] by simp
    with True show ?thesis by simp
  next
    case False
    with k(3) show ?thesis by simp
  qed
  with k(1,2) show ?thesis by blast
qed

text \<open>The table after a permitted call, in terms of the shift chosen by shift_up.\<close>

lemma acceleration_ramp:
  assumes "is_stopped s" "0 \<le> d0" "ramp_value d0 5 < 2 ^ 32"
    and "max_delay_of ((shift_down s)\<lparr> m_delay0 := map (ramp_entry d0) [0..<MICRO_LEVELS] \<rparr>) \<noteq> 0"
  shows "\<exists>s' k. acceleration s (ramp_entry d0) = Some s' \<and> unat (m_shift s') = k
          \<and> (\<forall>m<MICRO_LEVELS. uint (m_delay0 s' ! m) = \<lfloor>ramp_value d0 m\<rfloor> * 2 ^ k)"
proof -
  let ?t = "(shift_down s)\<lparr> m_delay0 := map (ramp_entry d0) [0..<MICRO_LEVELS] \<rparr>"
  obtain s3 where s3: "acceleration s (ramp_entry d0) = shift_up s3" "m_shift s3 = 0"
    "max_delay_of s3 = max_delay_of ?t" "m_delay0 s3 = map (ramp_entry d0) [0..<MICRO_LEVELS]"
    using assms(1) by (simp add: acceleration_def shift_down_def Let_def max_delay_of_def)
  have nz: "max_delay_of s3 \<noteq> 0" using assms(4) s3(3) by simp
  from shift_up_Some_bound [OF s3(2) nz] obtain k where k:
    "k \<le> 30" "shift_up s3 = Some (scale_delays k s3)"
    "unat (max_delay_of s3) * 2 ^ k < 2 ^ 32" by blast
  let ?s' = "scale_delays k s3"
  have sh: "unat (m_shift ?s') = k" using k(1) by (simp add: scale_delays_def unat_of_nat_u8)
  have last: "ramp_entry d0 5 \<le> max_delay_of s3"
    by (simp add: max_delay_of_def s3(4) MICRO_LEVELS_def max.coboundedI1)
  have ent: "uint (m_delay0 ?s' ! m) = \<lfloor>ramp_value d0 m\<rfloor> * 2 ^ k"
    if "m < MICRO_LEVELS" for m
  proof -
    have m5: "m \<le> 5" using that by (simp add: MICRO_LEVELS_def)
    have nth: "m_delay0 ?s' ! m = push_bit k (ramp_entry d0 m)"
      using that by (simp add: scale_delays_def s3(4))
    have "ramp_entry d0 m \<le> ramp_entry d0 5"
      using assms(2,3) m5 by (intro ramp_entry_mono) simp_all
    with last have "ramp_entry d0 m \<le> max_delay_of s3" by simp
    then have "unat (ramp_entry d0 m) * 2 ^ k \<le> unat (max_delay_of s3) * 2 ^ k"
      by (simp add: word_le_nat_alt)
    with k(3) have "unat (ramp_entry d0 m) * 2 ^ k < 2 ^ 32" by linarith
    then have "unat (push_bit k (ramp_entry d0 m)) = unat (ramp_entry d0 m) * 2 ^ k"
      by (rule unat_push_bit_no_overflow)
    then have "int (unat (m_delay0 ?s' ! m)) = int (unat (ramp_entry d0 m)) * 2 ^ k"
      by (simp add: nth)
    then have "uint (m_delay0 ?s' ! m) = uint (ramp_entry d0 m) * 2 ^ k" by simp
    then show ?thesis using assms(2,3) m5 by (simp add: uint_ramp_entry)
  qed
  have "acceleration s (ramp_entry d0) = Some ?s'" using s3(1) k(2) by simp
  with sh ent show ?thesis by blast
qed

text \<open>The table for \<^verbatim>\<open>d0\<close> = 676000.\<close>

lemma round_double_numeral:
  "round_double 1 = 1" "round_double 2 = 2" "round_double 4 = 4"
  "round_double 676000 = 676000" "round_double 1352000 = 1352000"
  "round_double 2704000 = 2704000"
  using round_double_of_nat [of 1] round_double_of_nat [of 2] round_double_of_nat [of 4]
    round_double_of_nat [of 676000] round_double_of_nat [of 1352000]
    round_double_of_nat [of 2704000]
  by simp_all

lemma ramp_value_unit_even:
  "ramp_value unit_d0 0 = 676000" "ramp_value unit_d0 2 = 1352000"
  "ramp_value unit_d0 4 = 2704000"
proof -
  have s4: "sqrt (2 ^ 2) = 2" by simp
  have "sqrt (2 ^ 4) = sqrt (4\<^sup>2)" by simp
  then have s16: "sqrt (2 ^ 4) = 4" by simp
  show "ramp_value unit_d0 0 = 676000"
    by (simp add: ramp_value_def unit_d0_def round_double_numeral)
  show "ramp_value unit_d0 2 = 1352000"
    by (simp only: ramp_value_def s4 unit_d0_def round_double_numeral) (simp add: round_double_numeral)
  show "ramp_value unit_d0 4 = 2704000"
    by (simp only: ramp_value_def s16 unit_d0_def round_double_numeral) (simp add: round_double_numeral)
qed

lemma ramp_value_unit_fits: "ramp_value unit_d0 5 < 2 ^ 32"
proof -
  have "ramp_value unit_d0 5 \<le> unit_d0 * sqrt (2 ^ 5) * (1 + 1 / 2 ^ 53)\<^sup>2"
    by (rule ramp_value_rel) (simp add: unit_d0_def)
  also have "\<dots> \<le> unit_d0 * 6 * (1 + 1 / 2 ^ 53)\<^sup>2"
    using sqrt_pow2_bounds(2) [of 5]
    by (intro mult_right_mono mult_left_mono) (simp_all add: unit_d0_def)
  also have "\<dots> < 2 ^ 32" by (simp add: unit_d0_def power2_eq_square)
  finally show ?thesis .
qed

lemma floor_ramp_value:
  assumes "0 \<le> d0" "m \<le> 5" "ramp_value d0 5 < 2 ^ 32"
    and "of_int k + 1 / 10 \<le> d0 * sqrt (2 ^ m)" "d0 * sqrt (2 ^ m) \<le> of_int k + 9 / 10"
  shows "\<lfloor>ramp_value d0 m\<rfloor> = k"
proof (rule floor_unique)
  define t :: real where "t = 1 / 2 ^ 18"
  have t: "t < 1 / 10" by (simp add: t_def)
  from ramp_value_abs [OF assms(1-3)] have "\<bar>ramp_value d0 m - d0 * sqrt (2 ^ m)\<bar> \<le> t"
    by (simp only: t_def)
  with assms(4,5) t show "of_int k \<le> ramp_value d0 m" "ramp_value d0 m < of_int k + 1"
    by linarith+
qed

lemma unit_d0_sqrt_bounds:
  "956008 + 1 / 10 \<le> unit_d0 * sqrt (2 ^ 1)" "unit_d0 * sqrt (2 ^ 1) \<le> 956008 + 9 / 10"
  "1912016 + 1 / 10 \<le> unit_d0 * sqrt (2 ^ 3)" "unit_d0 * sqrt (2 ^ 3) \<le> 1912016 + 9 / 10"
  "3824033 + 1 / 10 \<le> unit_d0 * sqrt (2 ^ 5)" "unit_d0 * sqrt (2 ^ 5) \<le> 3824033 + 9 / 10"
proof -
  have lo: "a \<le> unit_d0 * sqrt y" if "(a / 676000)\<^sup>2 \<le> y" for a y
  proof -
    from that have "a / 676000 \<le> sqrt y" by (rule real_le_rsqrt)
    then show ?thesis by (simp add: unit_d0_def field_simps)
  qed
  have hi: "unit_d0 * sqrt y \<le> a" if "0 \<le> a" "y \<le> (a / 676000)\<^sup>2" for a y
  proof -
    have "0 \<le> a / 676000" using that(1) by simp
    then have "sqrt y \<le> a / 676000" using that(2) by (rule real_le_lsqrt)
    then show ?thesis by (simp add: unit_d0_def field_simps)
  qed
  show "956008 + 1 / 10 \<le> unit_d0 * sqrt (2 ^ 1)" by (rule lo) (simp add: power2_eq_square)
  show "unit_d0 * sqrt (2 ^ 1) \<le> 956008 + 9 / 10" by (rule hi) (simp_all add: power2_eq_square)
  show "1912016 + 1 / 10 \<le> unit_d0 * sqrt (2 ^ 3)" by (rule lo) (simp add: power2_eq_square)
  show "unit_d0 * sqrt (2 ^ 3) \<le> 1912016 + 9 / 10" by (rule hi) (simp_all add: power2_eq_square)
  show "3824033 + 1 / 10 \<le> unit_d0 * sqrt (2 ^ 5)" by (rule lo) (simp add: power2_eq_square)
  show "unit_d0 * sqrt (2 ^ 5) \<le> 3824033 + 9 / 10" by (rule hi) (simp_all add: power2_eq_square)
qed

lemma floor_ramp_value_unit:
  "\<lfloor>ramp_value unit_d0 0\<rfloor> = 676000" "\<lfloor>ramp_value unit_d0 1\<rfloor> = 956008"
  "\<lfloor>ramp_value unit_d0 2\<rfloor> = 1352000" "\<lfloor>ramp_value unit_d0 3\<rfloor> = 1912016"
  "\<lfloor>ramp_value unit_d0 4\<rfloor> = 2704000" "\<lfloor>ramp_value unit_d0 5\<rfloor> = 3824033"
proof -
  have d: "0 \<le> unit_d0" by (simp add: unit_d0_def)
  show "\<lfloor>ramp_value unit_d0 0\<rfloor> = 676000" "\<lfloor>ramp_value unit_d0 2\<rfloor> = 1352000"
    "\<lfloor>ramp_value unit_d0 4\<rfloor> = 2704000"
    by (simp_all add: ramp_value_unit_even)
  show "\<lfloor>ramp_value unit_d0 1\<rfloor> = 956008"
    using unit_d0_sqrt_bounds(1,2) by (intro floor_ramp_value d ramp_value_unit_fits) simp_all
  show "\<lfloor>ramp_value unit_d0 3\<rfloor> = 1912016"
    using unit_d0_sqrt_bounds(3,4) by (intro floor_ramp_value d ramp_value_unit_fits) simp_all
  show "\<lfloor>ramp_value unit_d0 5\<rfloor> = 3824033"
    using unit_d0_sqrt_bounds(5,6) by (intro floor_ramp_value d ramp_value_unit_fits) simp_all
qed

lemma ramp_entry_unit:
  "ramp_entry unit_d0 0 = 676000" "ramp_entry unit_d0 (Suc 0) = 956008"
  "ramp_entry unit_d0 2 = 1352000" "ramp_entry unit_d0 3 = 1912016"
  "ramp_entry unit_d0 4 = 2704000" "ramp_entry unit_d0 5 = 3824033"
  using floor_ramp_value_unit by (simp_all add: ramp_entry_def)

lemma acceleration_default_unit:
  "acceleration default_state (ramp_entry unit_d0) =
     Some (default_state\<lparr>
        m_delay0 := [346112000, 489476096, 692224000, 978952192, 1384448000, 1957904896],
        m_delay := 109449728, m_smooth_delay := 512000, m_target_delay := 51200000,
        m_shift := 9 \<rparr>)"
  by (simp add: ramp_entry_unit default_state_def eval_defs)

lemma ramp_floor_bounds:
  assumes "0 \<le> d0" "m \<le> 5" "ramp_value d0 5 < 2 ^ 32"
  shows "real_of_int \<lfloor>ramp_value d0 0\<rfloor> * sqrt (2 ^ m) - 2 < real_of_int \<lfloor>ramp_value d0 m\<rfloor>"
    and "real_of_int \<lfloor>ramp_value d0 m\<rfloor> < (real_of_int \<lfloor>ramp_value d0 0\<rfloor> + 2) * sqrt (2 ^ m)"
proof -
  define t :: real where "t = 1 / 2 ^ 18"
  define r where "r = sqrt (2 ^ m)"
  define e0 where "e0 = real_of_int \<lfloor>ramp_value d0 0\<rfloor>"
  define em where "em = real_of_int \<lfloor>ramp_value d0 m\<rfloor>"
  have t: "0 \<le> t" "t \<le> 1 / 10" by (simp_all add: t_def)
  have r: "1 \<le> r" "r \<le> 6" unfolding r_def using assms(2) by (rule sqrt_pow2_bounds)+
  have "\<bar>ramp_value d0 0 - d0 * sqrt (2 ^ 0)\<bar> \<le> 1 / 2 ^ 18"
    using assms(1) _ assms(3) by (rule ramp_value_abs) simp
  then have y0: "\<bar>ramp_value d0 0 - d0\<bar> \<le> t" by (simp add: t_def)
  have ym: "\<bar>ramp_value d0 m - d0 * r\<bar> \<le> t"
    unfolding r_def t_def using assms by (rule ramp_value_abs)
  have f0: "e0 \<le> ramp_value d0 0" "ramp_value d0 0 < e0 + 1" unfolding e0_def by linarith+
  have fm: "em \<le> ramp_value d0 m" "ramp_value d0 m < em + 1" unfolding em_def by linarith+
  have d_lo: "e0 - t \<le> d0" and d_hi: "d0 < e0 + 1 + t" using y0 f0 by linarith+
  have r0: "0 \<le> r" "0 < r" using r(1) by simp_all
  have "(e0 - t) * r \<le> d0 * r" using d_lo r0(1) by (rule mult_right_mono)
  then have lo: "e0 * r - t * r \<le> d0 * r" by (simp add: algebra_simps)
  have "d0 * r < (e0 + 1 + t) * r" using d_hi r0(2) by (rule mult_strict_right_mono)
  then have hi: "d0 * r < e0 * r + r + t * r" by (simp add: algebra_simps)
  have "t * r \<le> t * 6" using r(2) t(1) by (rule mult_left_mono)
  then have tr: "t * r \<le> 6 / 10" using t(2) by linarith
  have tr0: "0 \<le> t * r" using t(1) r0(1) by simp
  have "e0 * r - 2 < em" using lo tr t ym fm by linarith
  then show "real_of_int \<lfloor>ramp_value d0 0\<rfloor> * sqrt (2 ^ m) - 2 < real_of_int \<lfloor>ramp_value d0 m\<rfloor>"
    by (simp only: e0_def em_def r_def)
  have "em < e0 * r + 2 * r" using hi tr t ym fm r(1) by linarith
  then have "em < (e0 + 2) * r" by (simp add: algebra_simps)
  then show "real_of_int \<lfloor>ramp_value d0 m\<rfloor> < (real_of_int \<lfloor>ramp_value d0 0\<rfloor> + 2) * sqrt (2 ^ m)"
    by (simp only: e0_def em_def r_def)
qed

text \<open>
  For any base delay, the entries that \<^verbatim>\<open>acceleration\<close> stores are the entry of level 0
  multiplied by \<open>sqrt (2 ^ level)\<close>, up to the rounding and truncation of each entry.
\<close>

lemma ramp_table_of_base:
  assumes "is_stopped s" "0 \<le> d0" "unat (m_shift s) < 32"
    and "ramp_value d0 5 < 2 ^ 32"
    and "max_delay_of ((shift_down s)\<lparr> m_delay0 := map (ramp_entry d0) [0..<MICRO_LEVELS] \<rparr>) \<noteq> 0"
  shows "\<exists>s'. acceleration s (ramp_entry d0) = Some s'
          \<and> (\<forall>m<MICRO_LEVELS.
                real_of_int (uint (m_delay0 s' ! 0)) * sqrt (2 ^ m) - 2 * 2 ^ unat (m_shift s')
                  < real_of_int (uint (m_delay0 s' ! m))
                \<and> real_of_int (uint (m_delay0 s' ! m))
                  < (real_of_int (uint (m_delay0 s' ! 0)) + 2 * 2 ^ unat (m_shift s')) * sqrt (2 ^ m)
                \<and> m_delay0 s' ! 0 \<le> m_delay0 s' ! m)"
proof -
  from acceleration_ramp [OF assms(1,2,4,5)] obtain s' k where s':
    "acceleration s (ramp_entry d0) = Some s'" "unat (m_shift s') = k"
    and ent: "\<And>m. m < MICRO_LEVELS \<Longrightarrow>
        uint (m_delay0 s' ! m) = \<lfloor>ramp_value d0 m\<rfloor> * 2 ^ k" by blast
  let ?e = "\<lambda>m. real_of_int \<lfloor>ramp_value d0 m\<rfloor>"
  let ?D = "\<lambda>m. real_of_int (uint (m_delay0 s' ! m))"
  have z: "0 < MICRO_LEVELS" by (simp add: MICRO_LEVELS_def)
  have D: "?D m = ?e m * 2 ^ k" if "m < MICRO_LEVELS" for m
    by (simp only: ent [OF that] of_int_mult of_int_power of_int_numeral)
  have D0: "?D 0 = ?e 0 * 2 ^ k" using z by (rule D)
  have "?D 0 * sqrt (2 ^ m) - 2 * 2 ^ k < ?D m \<and> ?D m < (?D 0 + 2 * 2 ^ k) * sqrt (2 ^ m)
        \<and> m_delay0 s' ! 0 \<le> m_delay0 s' ! m" if m: "m < MICRO_LEVELS" for m
  proof -
    let ?r = "sqrt (2 ^ m)"
    have m5: "m \<le> 5" using m by (simp add: MICRO_LEVELS_def)
    have p: "(0::real) < 2 ^ k" by simp
    have "?e 0 * ?r - 2 < ?e m" using assms(2) m5 assms(4) by (rule ramp_floor_bounds)
    then have "(?e 0 * ?r - 2) * 2 ^ k < ?e m * 2 ^ k"
      using p by (rule mult_strict_right_mono)
    moreover have "(?e 0 * ?r - 2) * 2 ^ k = ?e 0 * 2 ^ k * ?r - 2 * 2 ^ k"
      by (simp add: algebra_simps)
    ultimately have lower: "?D 0 * ?r - 2 * 2 ^ k < ?D m"
      by (simp only: D [OF m] D0)
    have "?e m < (?e 0 + 2) * ?r" using assms(2) m5 assms(4) by (rule ramp_floor_bounds)
    then have "?e m * 2 ^ k < (?e 0 + 2) * ?r * 2 ^ k"
      using p by (rule mult_strict_right_mono)
    moreover have "(?e 0 + 2) * ?r * 2 ^ k = (?e 0 * 2 ^ k + 2 * 2 ^ k) * ?r"
      by (simp add: algebra_simps)
    ultimately have upper: "?D m < (?D 0 + 2 * 2 ^ k) * ?r"
      by (simp only: D [OF m] D0)
    have "\<lfloor>ramp_value d0 0\<rfloor> \<le> \<lfloor>ramp_value d0 m\<rfloor>"
      using assms(2) by (intro floor_mono ramp_value_mono) simp_all
    then have "\<lfloor>ramp_value d0 0\<rfloor> * 2 ^ k \<le> \<lfloor>ramp_value d0 m\<rfloor> * 2 ^ k"
      by (rule mult_right_mono) simp
    then have "uint (m_delay0 s' ! 0) \<le> uint (m_delay0 s' ! m)"
      by (simp only: ent [OF z] ent [OF m])
    then have "m_delay0 s' ! 0 \<le> m_delay0 s' ! m" by (simp add: word_le_def)
    with lower upper show ?thesis by blast
  qed
  with s'(1,2) show ?thesis by blast
qed

lemma default_unit_hyps:
  "is_stopped default_state" "0 \<le> unit_d0" "unat (m_shift default_state) < 32"
  "ramp_value unit_d0 5 < 2 ^ 32"
  "max_delay_of ((shift_down default_state)
      \<lparr> m_delay0 := map (ramp_entry unit_d0) [0..<MICRO_LEVELS] \<rparr>) \<noteq> 0"
proof -
  show "is_stopped default_state" by (simp add: default_state_def is_stopped_def)
  show "0 \<le> unit_d0" by (simp add: unit_d0_def)
  show "unat (m_shift default_state) < 32" by (simp add: default_state_def)
  show "ramp_value unit_d0 5 < 2 ^ 32" by (rule ramp_value_unit_fits)
  show "max_delay_of ((shift_down default_state)
      \<lparr> m_delay0 := map (ramp_entry unit_d0) [0..<MICRO_LEVELS] \<rparr>) \<noteq> 0"
    by (rule max_delay_of_nonzero_target) (simp add: default_state_def shift_down_def)
qed

section \<open>The base delay\<close>

lemma rel_err_refl: "rel_err 0 X X"
  by (simp add: rel_err_def)

lemma rel_err_nonneg: "0 \<le> X \<Longrightarrow> rel_err k X y \<Longrightarrow> 0 \<le> y"
proof -
  assume X: "0 \<le> X" and w: "rel_err k X y"
  have "(0::real) \<le> (1 - 1 / 2 ^ 24) ^ k" by simp
  then have "0 \<le> X * (1 - 1 / 2 ^ 24) ^ k" using X by (rule mult_nonneg_nonneg [rotated])
  with w show ?thesis by (simp add: rel_err_def)
qed

lemma rel_err_step:
  assumes "0 \<le> X" "rel_err k X y" "y * (1 - 1 / 2 ^ 24) \<le> z" "z \<le> y * (1 + 1 / 2 ^ 24)"
  shows "rel_err (Suc k) X z"
proof -
  let ?l = "1 - 1 / 2 ^ 24 :: real" and ?u = "1 + 1 / 2 ^ 24 :: real"
  have l: "0 \<le> ?l" and u: "0 \<le> ?u" by simp_all
  from assms(2) have w: "X * ?l ^ k \<le> y" "y \<le> X * ?u ^ k" by (simp_all add: rel_err_def)
  have "X * ?l ^ k * ?l \<le> y * ?l" using w(1) l by (rule mult_right_mono)
  then have lo: "X * ?l ^ Suc k \<le> z" using assms(3) by (simp add: mult.assoc mult.commute)
  have "y * ?u \<le> X * ?u ^ k * ?u" using w(2) u by (rule mult_right_mono)
  then have hi: "z \<le> X * ?u ^ Suc k" using assms(4) by (simp add: mult.assoc mult.commute)
  from lo hi show ?thesis by (simp only: rel_err_def)
qed

lemma rel_err_round_float:
  assumes "0 \<le> X" "rel_err k X y"
  shows "rel_err (Suc k) X (round_float y)"
proof -
  have "0 \<le> y" using assms by (rule rel_err_nonneg)
  then show ?thesis using assms round_float_bounds [of y] by (intro rel_err_step) simp_all
qed

lemma rel_err_round_double:
  assumes "0 \<le> X" "rel_err k X y"
  shows "rel_err (Suc k) X (round_double y)"
proof -
  have y: "0 \<le> y" using assms by (rule rel_err_nonneg)
  have "y * (1 - 1 / 2 ^ 24) \<le> y * (1 - 1 / 2 ^ 53)" using y by (intro mult_left_mono) simp_all
  then have lo: "y * (1 - 1 / 2 ^ 24) \<le> round_double y"
    using round_double_bounds(1) [OF y] by (rule order_trans)
  have "y * (1 + 1 / 2 ^ 53) \<le> y * (1 + 1 / 2 ^ 24)" using y by (intro mult_left_mono) simp_all
  with round_double_bounds(2) [OF y] have hi: "round_double y \<le> y * (1 + 1 / 2 ^ 24)"
    by (rule order_trans)
  from assms lo hi show ?thesis by (rule rel_err_step)
qed

lemma rel_err_mult_const:
  assumes "rel_err k X y" "0 \<le> c"
  shows "rel_err k (X * c) (y * c)"
proof -
  from assms(1) have w: "X * (1 - 1 / 2 ^ 24) ^ k \<le> y" "y \<le> X * (1 + 1 / 2 ^ 24) ^ k"
    by (simp_all add: rel_err_def)
  have "X * (1 - 1 / 2 ^ 24) ^ k * c \<le> y * c" using w(1) assms(2) by (rule mult_right_mono)
  moreover have "y * c \<le> X * (1 + 1 / 2 ^ 24) ^ k * c" using w(2) assms(2) by (rule mult_right_mono)
  ultimately show ?thesis by (simp add: rel_err_def mult.assoc mult.commute mult.left_commute)
qed

lemma rel_err_prod:
  assumes "0 \<le> X" "0 \<le> C" "rel_err k X y" "rel_err j C c"
  shows "rel_err (k + j) (X * C) (y * c)"
proof -
  let ?l = "1 - 1 / 2 ^ 24 :: real" and ?u = "1 + 1 / 2 ^ 24 :: real"
  from assms(3) have wy: "X * ?l ^ k \<le> y" "y \<le> X * ?u ^ k" by (simp_all add: rel_err_def)
  from assms(4) have wc: "C * ?l ^ j \<le> c" "c \<le> C * ?u ^ j" by (simp_all add: rel_err_def)
  have y: "0 \<le> y" using assms(1,3) by (rule rel_err_nonneg)
  have c: "0 \<le> c" using assms(2,4) by (rule rel_err_nonneg)
  have l0: "0 \<le> X * ?l ^ k" "0 \<le> C * ?l ^ j" using assms(1,2) by simp_all
  have "(X * ?l ^ k) * (C * ?l ^ j) \<le> y * c" using wy(1) wc(1) l0 by (intro mult_mono) simp_all
  moreover have "(X * ?l ^ k) * (C * ?l ^ j) = X * C * ?l ^ (k + j)" by (simp add: power_add)
  moreover have "y * c \<le> (X * ?u ^ k) * (C * ?u ^ j)" using wy(2) wc(2) y c
    by (intro mult_mono) simp_all
  moreover have "(X * ?u ^ k) * (C * ?u ^ j) = X * C * ?u ^ (k + j)" by (simp add: power_add)
  ultimately show ?thesis by (simp only: rel_err_def)
qed

lemma rel_err_sqrt:
  assumes "0 \<le> X" "rel_err (Suc 0) X y"
  shows "rel_err (Suc 0) (sqrt X) (sqrt y)"
proof -
  let ?l = "1 - 1 / 2 ^ 24 :: real" and ?u = "1 + 1 / 2 ^ 24 :: real"
  from assms(2) have w: "X * ?l \<le> y" "y \<le> X * ?u" by (simp_all add: rel_err_def)
  have "?l\<^sup>2 \<le> ?l" by (simp add: power2_eq_square)
  then have l: "?l \<le> sqrt ?l" by (rule real_le_rsqrt)
  have "?u \<le> ?u\<^sup>2" by (simp add: power2_eq_square)
  then have u: "sqrt ?u \<le> ?u" by (rule real_le_lsqrt [rotated]) simp
  have s0: "0 \<le> sqrt X" using assms(1) by simp
  have "sqrt X * ?l \<le> sqrt X * sqrt ?l" using l s0 by (rule mult_left_mono)
  also have "\<dots> = sqrt (X * ?l)" by (simp only: real_sqrt_mult)
  also have "\<dots> \<le> sqrt y" using w(1) by simp
  finally have lo: "sqrt X * ?l \<le> sqrt y" .
  have "sqrt y \<le> sqrt (X * ?u)" using w(2) by simp
  also have "\<dots> = sqrt X * sqrt ?u" by (simp only: real_sqrt_mult)
  also have "\<dots> \<le> sqrt X * ?u" using u s0 by (rule mult_left_mono)
  finally have hi: "sqrt y \<le> sqrt X * ?u" .
  from lo hi show ?thesis by (simp add: rel_err_def)
qed

lemma base_delay_within:
  assumes "0 < accel"
  shows "rel_err 6 (spec_d0 accel) (base_delay float_sqrt accel)"
proof -
  let ?X = "1 / accel" and ?K = "676 / 1000 :: real"
  let ?s = "sqrt_of_float float_sqrt (round_float ?X)"
  have X: "0 \<le> ?X" using assms by simp
  have S: "0 \<le> sqrt ?X" using X by simp
  have "rel_err (Suc 0) ?X (round_float ?X)" using X rel_err_refl by (rule rel_err_round_float)
  with X have s1: "rel_err (Suc 0) (sqrt ?X) (sqrt (round_float ?X))" by (rule rel_err_sqrt)
  have s2: "rel_err (Suc (Suc 0)) (sqrt ?X) ?s"
    using rel_err_round_float [OF S s1] rel_err_round_double [OF S s1]
    by (simp add: sqrt_of_float_def)
  have K: "0 \<le> ?K" by simp
  have k: "rel_err (Suc 0) ?K (round_double ?K)"
    using K rel_err_refl by (rule rel_err_round_double)
  have p: "rel_err (Suc (Suc 0) + Suc 0) (sqrt ?X * ?K) (?s * round_double ?K)"
    using S K s2 k by (rule rel_err_prod)
  have SK: "0 \<le> sqrt ?X * ?K" using S by simp
  have "rel_err (Suc (Suc (Suc 0) + Suc 0)) (sqrt ?X * ?K) (round_double (?s * round_double ?K))"
    using SK p by (rule rel_err_round_double)
  then have m: "rel_err (Suc (Suc (Suc 0) + Suc 0)) (sqrt ?X * ?K * 1000000)
      (round_double (?s * round_double ?K) * 1000000)"
    by (rule rel_err_mult_const) simp
  have SKM: "0 \<le> sqrt ?X * ?K * 1000000" using S by simp
  have "rel_err (Suc (Suc (Suc (Suc 0) + Suc 0))) (sqrt ?X * ?K * 1000000)
      (round_double (round_double (?s * round_double ?K) * 1000000))"
    using SKM m by (rule rel_err_round_double)
  with SKM have "rel_err (Suc (Suc (Suc (Suc (Suc 0) + Suc 0)))) (sqrt ?X * ?K * 1000000)
      (base_delay float_sqrt accel)"
    unfolding base_delay_def by (rule rel_err_round_float)
  moreover have "Suc (Suc (Suc (Suc (Suc 0) + Suc 0))) = 6" by simp
  ultimately show ?thesis by (simp only: spec_d0_def)
qed

lemma base_delay_rel:
  assumes "0 < accel"
  shows "spec_d0 accel * (1 - 1 / 2 ^ 21) \<le> base_delay float_sqrt accel"
    and "base_delay float_sqrt accel \<le> spec_d0 accel * (1 + 1 / 2 ^ 21)"
proof -
  have s: "0 \<le> spec_d0 accel" using assms by (simp add: spec_d0_def)
  from base_delay_within [OF assms, of float_sqrt]
  have w: "spec_d0 accel * (1 - 1 / 2 ^ 24) ^ 6 \<le> base_delay float_sqrt accel"
    "base_delay float_sqrt accel \<le> spec_d0 accel * (1 + 1 / 2 ^ 24) ^ 6"
    by (simp_all add: rel_err_def)
  have "(1 - 1 / 2 ^ 21 :: real) \<le> (1 - 1 / 2 ^ 24) ^ 6" by (simp add: eval_nat_numeral)
  then have "spec_d0 accel * (1 - 1 / 2 ^ 21) \<le> spec_d0 accel * (1 - 1 / 2 ^ 24) ^ 6"
    using s by (rule mult_left_mono)
  then show "spec_d0 accel * (1 - 1 / 2 ^ 21) \<le> base_delay float_sqrt accel"
    using w(1) by (rule order_trans)
  have "((1 + 1 / 2 ^ 24) ^ 6 :: real) \<le> 1 + 1 / 2 ^ 21" by (simp add: eval_nat_numeral)
  then have "spec_d0 accel * (1 + 1 / 2 ^ 24) ^ 6 \<le> spec_d0 accel * (1 + 1 / 2 ^ 21)"
    using s by (rule mult_left_mono)
  with w(2) show "base_delay float_sqrt accel \<le> spec_d0 accel * (1 + 1 / 2 ^ 21)"
    by (rule order_trans)
qed

lemma base_delay_nonneg: "0 < accel \<Longrightarrow> 0 \<le> base_delay float_sqrt accel"
proof -
  assume a: "0 < accel"
  have "0 \<le> spec_d0 accel" using a by (simp add: spec_d0_def)
  then show ?thesis using base_delay_within [OF a] by (rule rel_err_nonneg)
qed

text \<open>Rounding a number whose binade is known.\<close>

lemma round_sig_small_unit:
  assumes "0 < x" "2 ^ f \<le> x * 2 ^ j" "x * 2 ^ j < 2 ^ Suc f"
  shows "round_sig f x = of_int (round_even (x * 2 ^ j)) / 2 ^ j"
proof -
  define k where "k = int f - int j"
  have pk: "2 powr (of_int k) = (2::real) ^ f / 2 ^ j"
    by (simp add: k_def powr_diff powr_realpow)
  have "2 powr (of_int k + 1) = (2::real) powr (of_int k) * 2" by (simp add: powr_add)
  then have pk1: "2 powr (of_int k + 1) = (2::real) ^ Suc f / 2 ^ j" by (simp add: pk)
  have lo: "2 powr (of_int k) \<le> x" unfolding pk using assms(2) by (simp add: field_simps)
  have hi: "x < 2 powr (of_int k + 1)" unfolding pk1 using assms(3) by (simp add: field_simps)
  have "\<lfloor>log 2 x\<rfloor> = k" using assms(1) lo hi by (simp add: floor_log_eq_powr_iff)
  then have "round_sig f x
      = 2 powr (of_int k - of_nat f) * of_int (round_even (x / 2 powr (of_int k - of_nat f)))"
    using assms(1) by (simp add: round_sig_pos)
  moreover have "of_int k - real f = - real j" by (simp add: k_def)
  then have "(2::real) powr (of_int k - of_nat f) = 1 / 2 ^ j"
    by (simp add: powr_minus powr_realpow divide_simps)
  ultimately show ?thesis by simp
qed

text \<open>The double literal \<^verbatim>\<open>0.676\<close>, and \<^verbatim>\<open>d0\<close> for \<^verbatim>\<open>accel = 1.0\<close>.\<close>

lemma double_676: "round_double (676 / 1000) = 6088866696204911 / 2 ^ 53"
proof -
  have "round_double (676 / 1000) = of_int (round_even (676 / 1000 * 2 ^ 53)) / 2 ^ 53"
    unfolding round_double_def by (rule round_sig_small_unit) simp_all
  moreover have "round_even (676 / 1000 * 2 ^ 53) = 6088866696204911"
    by (simp add: round_even_def Let_def)
  ultimately show ?thesis by simp
qed

lemma double_676_again:
  "round_double (6088866696204911 / 2 ^ 53) = 6088866696204911 / 2 ^ 53"
proof -
  have "round_double (6088866696204911 / 2 ^ 53)
      = of_int (round_even (6088866696204911 / 2 ^ 53 * 2 ^ 53)) / 2 ^ 53"
    unfolding round_double_def by (rule round_sig_small_unit) simp_all
  moreover have "round_even (6088866696204911 / 2 ^ 53 * 2 ^ 53) = 6088866696204911"
    using round_even_of_int [of 6088866696204911] by simp
  ultimately show ?thesis by simp
qed

lemma double_676_million:
  "round_double (6088866696204911 / 2 ^ 53 * 1000000) = 676000"
proof -
  have "round_double (6088866696204911 / 2 ^ 53 * 1000000)
      = of_int (round_even (6088866696204911 / 2 ^ 53 * 1000000 * 2 ^ 33)) / 2 ^ 33"
    unfolding round_double_def by (rule round_sig_small_unit) simp_all
  moreover have "round_even (6088866696204911 / 2 ^ 53 * 1000000 * 2 ^ 33) = 5806795784192000"
    by (simp add: round_even_def Let_def)
  ultimately show ?thesis by simp
qed

lemma base_delay_unit: "base_delay float_sqrt 1 = unit_d0"
proof -
  have one: "round_float 1 = 1" "round_double 1 = 1"
    using round_float_of_nat [of 1] round_double_of_nat [of 1] by simp_all
  have f: "round_float 676000 = 676000" using round_float_of_nat [of 676000] by simp
  have s: "sqrt_of_float float_sqrt (round_float (1 / 1)) = 1"
    by (simp add: sqrt_of_float_def one)
  show ?thesis
    unfolding base_delay_def s
    by (simp only: mult_1 double_676 double_676_again double_676_million f unit_d0_def)
qed

section \<open>Exact evaluation of the floating-point model\<close>

lemma round_even_eq:
  assumes "of_int k - 1 / 2 < q" "q < of_int k + 1 / 2"
  shows "round_even q = k"
proof -
  have e: "\<bar>of_int (round_even q) - q\<bar> \<le> 1 / 2" by (rule round_even_error)
  have "\<bar>real_of_int (round_even q) - of_int k\<bar> < 1" using e assms by linarith
  then have "\<bar>real_of_int (round_even q - k)\<bar> < 1" by simp
  then have "\<bar>round_even q - k\<bar> < 1" by (simp only: of_int_abs [symmetric] of_int_less_1_iff)
  then show ?thesis by simp
qed

lemma round_sig_eval:
  assumes "0 < x" "2 ^ f \<le> x * 2 ^ j" "x * 2 ^ j < 2 ^ Suc f"
    and "of_int k - 1 / 2 < x * 2 ^ j" "x * 2 ^ j < of_int k + 1 / 2"
  shows "round_sig f x = of_int k / 2 ^ j"
  by (simp only: round_sig_small_unit [OF assms(1-3)] round_even_eq [OF assms(4,5)])

lemma sqrt_scaled_bounds:
  fixes a b v :: real
  assumes "0 \<le> a" "a\<^sup>2 < v * c\<^sup>2" "v * c\<^sup>2 < b\<^sup>2" "0 < b" "0 < c"
  shows "a < sqrt v * c" "sqrt v * c < b"
proof -
  have "sqrt v * c = sqrt (v * c\<^sup>2)" using assms(5) by (simp add: real_sqrt_mult)
  moreover have "a < sqrt (v * c\<^sup>2)" using assms(1,2) by (intro real_less_rsqrt)
  moreover have "sqrt (v * c\<^sup>2) < b" using assms(3,4) by (intro real_less_lsqrt) simp_all
  ultimately show "a < sqrt v * c" "sqrt v * c < b" by simp_all
qed

lemma round_sig_sqrt_eval:
  assumes "0 < v" "0 < k"
    and "(2 ^ f)\<^sup>2 \<le> v * (2 ^ j)\<^sup>2" "v * (2 ^ j)\<^sup>2 < (2 ^ Suc f)\<^sup>2"
    and "(of_int k - 1 / 2)\<^sup>2 < v * (2 ^ j)\<^sup>2" "v * (2 ^ j)\<^sup>2 < (of_int k + 1 / 2)\<^sup>2"
  shows "round_sig f (sqrt v) = of_int k / 2 ^ j"
proof (rule round_sig_eval)
  have eq: "sqrt v * 2 ^ j = sqrt (v * (2 ^ j)\<^sup>2)" by (simp add: real_sqrt_mult)
  show "0 < sqrt v" using assms(1) by simp
  show "2 ^ f \<le> sqrt v * 2 ^ j" unfolding eq using assms(3) by (intro real_le_rsqrt)
  show "sqrt v * 2 ^ j < 2 ^ Suc f" unfolding eq using assms(4) by (intro real_less_lsqrt) simp_all
  have k: "(0::real) \<le> of_int k - 1 / 2" "(0::real) < of_int k + 1 / 2"
    using assms(2) by simp_all
  show "of_int k - 1 / 2 < sqrt v * 2 ^ j" unfolding eq using k(1) assms(5)
    by (intro real_less_rsqrt)
  show "sqrt v * 2 ^ j < of_int k + 1 / 2" unfolding eq using k(2) assms(6)
    by (intro real_less_lsqrt) simp_all
qed

text \<open>\<^verbatim>\<open>d0\<close> for \<^verbatim>\<open>accel = 50.0\<close>, with the double and with the float \<^verbatim>\<open>sqrt\<close>.\<close>

lemma float_fiftieth: "round_float (1 / 50) = 10737418 / 2 ^ 29"
  unfolding round_float_def
  using round_sig_eval [of "1 / 50" 23 29 10737418] by simp

lemma double_sqrt_fiftieth:
  "round_double (sqrt (10737418 / 2 ^ 29)) = 5095241281076858 / 2 ^ 55"
  unfolding round_double_def
  using round_sig_sqrt_eval [of "10737418 / 2 ^ 29" 5095241281076858 52 55]
  by (simp add: power2_eq_square)

lemma float_sqrt_fiftieth:
  "round_float (sqrt (10737418 / 2 ^ 29)) = 9490626 / 2 ^ 26"
  unfolding round_float_def
  using round_sig_sqrt_eval [of "10737418 / 2 ^ 29" 9490626 23 26]
  by (simp add: power2_eq_square)

lemma double_fifty_products:
  "round_double (5095241281076858 / 2 ^ 55 * (6088866696204911 / 2 ^ 53))
     = 6888766212015912 / 2 ^ 56"
  "round_double (6888766212015912 / 2 ^ 56 * 1000000) = 6569639408126747 / 2 ^ 36"
  "round_double (9490626 / 2 ^ 26 * (6088866696204911 / 2 ^ 53)) = 6888765880767873 / 2 ^ 56"
  "round_double (6888765880767873 / 2 ^ 56 * 1000000) = 6569639092224000 / 2 ^ 36"
  unfolding round_double_def
  using round_sig_eval [of "5095241281076858 / 2 ^ 55 * (6088866696204911 / 2 ^ 53)" 52 56
      6888766212015912]
    round_sig_eval [of "6888766212015912 / 2 ^ 56 * 1000000" 52 36 6569639408126747]
    round_sig_eval [of "9490626 / 2 ^ 26 * (6088866696204911 / 2 ^ 53)" 52 56 6888765880767873]
    round_sig_eval [of "6888765880767873 / 2 ^ 56 * 1000000" 52 36 6569639092224000]
  by simp_all

lemma float_fifty_narrow:
  "round_float (6569639408126747 / 2 ^ 36) = 12236907 / 2 ^ 7"
  "round_float (6569639092224000 / 2 ^ 36) = 12236906 / 2 ^ 7"
  unfolding round_float_def
  using round_sig_eval [of "6569639408126747 / 2 ^ 36" 23 7 12236907]
    round_sig_eval [of "6569639092224000 / 2 ^ 36" 23 7 12236906]
  by simp_all

lemma base_delay_fifty:
  "base_delay False 50 = 12236907 / 128" "base_delay True 50 = 6118453 / 64"
proof -
  have "base_delay False 50 = 12236907 / 2 ^ 7" "base_delay True 50 = 12236906 / 2 ^ 7"
    unfolding base_delay_def sqrt_of_float_def
    by (simp_all only: if_True if_False float_fiftieth double_sqrt_fiftieth float_sqrt_fiftieth
        double_676 double_fifty_products float_fifty_narrow)
  then show "base_delay False 50 = 12236907 / 128" "base_delay True 50 = 6118453 / 64"
    by simp_all
qed

section \<open>The table of a given base delay\<close>

lemma ramp_value_fits:
  assumes "0 \<le> d0" "d0 \<le> 2 ^ 29"
  shows "ramp_value d0 5 < 2 ^ 32"
proof -
  have "ramp_value d0 5 \<le> d0 * sqrt (2 ^ 5) * (1 + 1 / 2 ^ 53)\<^sup>2"
    using assms(1) by (rule ramp_value_rel)
  also have "\<dots> \<le> 2 ^ 29 * 6 * (1 + 1 / 2 ^ 53)\<^sup>2"
    using sqrt_pow2_bounds(2) [of 5] assms
    by (intro mult_right_mono mult_mono) simp_all
  also have "\<dots> < 2 ^ 32" by (simp add: power2_eq_square)
  finally show ?thesis .
qed

lemma floor_ramp_value_tight:
  assumes "0 \<le> d0" "m \<le> 5" "d0 \<le> 2 ^ 29" "0 \<le> k"
    and "(of_int k + 1 / 2 ^ 18)\<^sup>2 \<le> d0\<^sup>2 * 2 ^ m"
    and "d0\<^sup>2 * 2 ^ m \<le> (of_int k + 1 - 1 / 2 ^ 17)\<^sup>2"
  shows "\<lfloor>ramp_value d0 m\<rfloor> = k"
proof (rule floor_unique)
  define t :: real where "t = 1 / 2 ^ 18"
  define X where "X = d0 * sqrt (2 ^ m)"
  have X: "X = sqrt (d0\<^sup>2 * 2 ^ m)" using assms(1) by (simp add: X_def real_sqrt_mult)
  have k: "(0::real) \<le> of_int k" using assms(4) by simp
  have t: "0 < t" "2 * t < 1" by (simp_all add: t_def)
  have "of_int k + t \<le> X" unfolding X t_def using assms(5) by (rule real_le_rsqrt)
  moreover have "X \<le> of_int k + 1 - 2 * t"
  proof -
    have "0 \<le> real_of_int k + 1 - 1 / 2 ^ 17" using k by simp
    then have "X \<le> of_int k + 1 - 1 / 2 ^ 17" unfolding X using assms(6) by (rule real_le_lsqrt)
    then show ?thesis by (simp add: t_def)
  qed
  moreover have "\<bar>ramp_value d0 m - X\<bar> \<le> t"
    unfolding X_def t_def using assms(1,2) ramp_value_fits [OF assms(1,3)] by (rule ramp_value_abs)
  ultimately show "of_int k \<le> ramp_value d0 m" "ramp_value d0 m < of_int k + 1"
    using t by linarith+
qed

text \<open>
  \<^verbatim>\<open>acceleration(50.0)\<close>: with either \<^verbatim>\<open>sqrt\<close> the entry of level 1 is 135199, although
  \<open>sqrt(1/50) * 0.676 * 1e6 * sqrt 2\<close> is 135200.
\<close>

lemma floor_ramp_value_fifty:
  "\<lfloor>ramp_value (12236907 / 128) 0\<rfloor> = 95600" "\<lfloor>ramp_value (12236907 / 128) (Suc 0)\<rfloor> = 135199"
  "\<lfloor>ramp_value (12236907 / 128) 2\<rfloor> = 191201" "\<lfloor>ramp_value (12236907 / 128) 3\<rfloor> = 270399"
  "\<lfloor>ramp_value (12236907 / 128) 4\<rfloor> = 382403" "\<lfloor>ramp_value (12236907 / 128) 5\<rfloor> = 540799"
  "\<lfloor>ramp_value (6118453 / 64) 0\<rfloor> = 95600" "\<lfloor>ramp_value (6118453 / 64) (Suc 0)\<rfloor> = 135199"
  "\<lfloor>ramp_value (6118453 / 64) 2\<rfloor> = 191201" "\<lfloor>ramp_value (6118453 / 64) 3\<rfloor> = 270399"
  "\<lfloor>ramp_value (6118453 / 64) 4\<rfloor> = 382403" "\<lfloor>ramp_value (6118453 / 64) 5\<rfloor> = 540799"
  by (rule floor_ramp_value_tight; simp add: power2_eq_square)+

lemma ramp_entry_fifty:
  "map (ramp_entry (base_delay float_sqrt 50)) [0, 1, 2, 3, 4, 5]
     = [95600, 135199, 191201, 270399, 382403, 540799]"
  by (cases float_sqrt) (simp_all add: base_delay_fifty ramp_entry_def floor_ramp_value_fifty)

lemma acceleration_default_fifty:
  "acceleration default_state (ramp_entry (base_delay float_sqrt 50)) =
     Some (default_state\<lparr>
        m_delay0 := [195788800, 276887552, 391579648, 553777152, 783161344, 1107556352],
        m_delay := 437798912, m_smooth_delay := 2048000, m_target_delay := 204800000,
        m_shift := 11 \<rparr>)"
proof -
  have "acceleration default_state (ramp_entry (base_delay float_sqrt 50)) =
      shift_up ((shift_down default_state)\<lparr> m_delay := 213769,
        m_delay0 := map (ramp_entry (base_delay float_sqrt 50)) [0, 1, 2, 3, 4, 5] \<rparr>)"
    by (simp add: acceleration_def default_state_def is_stopped_def shift_down_def
        MICRO_LEVELS_def upt_6 Let_def)
  then show ?thesis
    by (simp only: ramp_entry_fifty) (simp add: default_state_def eval_defs)
qed

lemma spec_start_delay_fifty: "spec_start_delay 50 1 = 135200"
proof -
  define r where "r = sqrt (1 / 50) * sqrt 2"
  have "r = sqrt (1 / 50 * 2)" by (simp only: r_def real_sqrt_mult)
  also have "\<dots> = sqrt ((1 / 5)\<^sup>2)" by (simp add: power2_eq_square)
  also have "\<dots> = 1 / 5" by simp
  finally have r: "r = 1 / 5" .
  have "spec_start_delay 50 1 = r * 676000"
    by (simp add: spec_start_delay_def spec_d0_def r_def)
  then show ?thesis by (simp only: r)
qed

text \<open>Successive entries differ by at least 1 once the base delay is 2.5 or more.\<close>

lemma sqrt2_lower: "14142 / 10000 < sqrt 2"
  by (rule real_less_rsqrt) (simp add: power2_eq_square)

lemma ramp_value_strict:
  assumes "5 / 2 \<le> d0" "m < 5" "ramp_value d0 5 < 2 ^ 32"
  shows "ramp_value d0 m + 1 < ramp_value d0 (Suc m)"
proof -
  define r where "r = sqrt (2 ^ m)"
  define t :: real where "t = 1 / 2 ^ 18"
  have d: "0 \<le> d0" using assms(1) by simp
  have m5: "m \<le> 5" "Suc m \<le> 5" using assms(2) by simp_all
  have r1: "1 \<le> r" unfolding r_def using m5(1) by (rule sqrt_pow2_bounds)
  have S: "sqrt (2 ^ Suc m) = sqrt 2 * r" by (simp add: r_def real_sqrt_mult)
  have a: "\<bar>ramp_value d0 m - d0 * r\<bar> \<le> t"
    unfolding r_def t_def using d m5(1) assms(3) by (rule ramp_value_abs)
  have "\<bar>ramp_value d0 (Suc m) - d0 * sqrt (2 ^ Suc m)\<bar> \<le> t"
    unfolding t_def using d m5(2) assms(3) by (rule ramp_value_abs)
  then have b: "\<bar>ramp_value d0 (Suc m) - d0 * (sqrt 2 * r)\<bar> \<le> t" by (simp only: S)
  have "5 / 2 * 1 \<le> d0 * r" using assms(1) r1 by (intro mult_mono) simp_all
  then have dr: "5 / 2 \<le> d0 * r" by simp
  have "5 / 2 * (4142 / 10000) \<le> d0 * r * (sqrt 2 - 1)"
    using dr sqrt2_lower by (intro mult_mono) simp_all
  moreover have "d0 * (sqrt 2 * r) = d0 * r + d0 * r * (sqrt 2 - 1)" by (simp add: algebra_simps)
  moreover have "t < 1 / 100" by (simp add: t_def)
  ultimately show ?thesis using a b by linarith
qed

lemma ramp_floor_strict:
  assumes "5 / 2 \<le> d0" "m < 5" "ramp_value d0 5 < 2 ^ 32"
  shows "\<lfloor>ramp_value d0 m\<rfloor> < \<lfloor>ramp_value d0 (Suc m)\<rfloor>"
proof -
  have "\<lfloor>ramp_value d0 m\<rfloor> + 1 = \<lfloor>ramp_value d0 m + 1\<rfloor>" by simp
  also have "\<dots> \<le> \<lfloor>ramp_value d0 (Suc m)\<rfloor>"
    using ramp_value_strict [OF assms] by (intro floor_mono) simp
  finally show ?thesis by simp
qed

lemma acceleration_ramp_strict:
  assumes "is_stopped s" "5 / 2 \<le> d0" "ramp_value d0 5 < 2 ^ 32"
    and "max_delay_of ((shift_down s)\<lparr> m_delay0 := map (ramp_entry d0) [0..<MICRO_LEVELS] \<rparr>) \<noteq> 0"
    and "acceleration s (ramp_entry d0) = Some s'" "m < MICRO_LEVELS - 1"
  shows "m_delay0 s' ! m < m_delay0 s' ! Suc m"
proof -
  have d: "0 \<le> d0" using assms(2) by simp
  from acceleration_ramp [OF assms(1) d assms(3,4)] assms(5) obtain k where
    ent: "\<And>m. m < MICRO_LEVELS \<Longrightarrow> uint (m_delay0 s' ! m) = \<lfloor>ramp_value d0 m\<rfloor> * 2 ^ k"
    by auto
  have lt: "m < MICRO_LEVELS" "Suc m < MICRO_LEVELS" using assms(6) by simp_all
  have m5: "m < 5" using assms(6) by (simp add: MICRO_LEVELS_def)
  have "\<lfloor>ramp_value d0 m\<rfloor> < \<lfloor>ramp_value d0 (Suc m)\<rfloor>"
    using assms(2) m5 assms(3) by (rule ramp_floor_strict)
  then have "\<lfloor>ramp_value d0 m\<rfloor> * 2 ^ k < \<lfloor>ramp_value d0 (Suc m)\<rfloor> * 2 ^ k"
    by (rule mult_strict_right_mono) simp
  then have "uint (m_delay0 s' ! m) < uint (m_delay0 s' ! Suc m)"
    by (simp only: ent [OF lt(1)] ent [OF lt(2)])
  then show ?thesis by (simp add: word_less_def)
qed

text \<open>
  A base delay of at most 0.165 gives a table of zeros: \<^verbatim>\<open>acceleration(17592186044416.0)\<close>, an
  acceleration of \<open>2\<^sup>4\<^sup>4\<close>, stores the same delay for every level.
\<close>

lemma ramp_entry_small:
  assumes "0 \<le> d0" "d0 \<le> 1 / 6 - 1 / 1000" "m \<le> 5"
  shows "ramp_entry d0 m = 0"
proof -
  have "ramp_value d0 m \<le> d0 * sqrt (2 ^ m) * (1 + 1 / 2 ^ 53)\<^sup>2"
    using assms(1) by (rule ramp_value_rel)
  also have "\<dots> \<le> (1 / 6 - 1 / 1000) * 6 * (1 + 1 / 2 ^ 53)\<^sup>2"
    using sqrt_pow2_bounds(2) [OF assms(3)] assms(1,2)
    by (intro mult_right_mono mult_mono) simp_all
  also have "\<dots> < 1" by (simp add: power2_eq_square)
  finally have "ramp_value d0 m < 1" .
  moreover have "0 \<le> ramp_value d0 m" using assms(1) by (rule ramp_value_nonneg)
  ultimately have "\<lfloor>ramp_value d0 m\<rfloor> = 0" by (intro floor_unique) simp_all
  then show ?thesis by (simp add: ramp_entry_def)
qed

lemma base_delay_huge:
  "0 \<le> base_delay float_sqrt (2 ^ 44)" "base_delay float_sqrt (2 ^ 44) \<le> 1 / 6 - 1 / 1000"
proof -
  show "0 \<le> base_delay float_sqrt (2 ^ 44)" by (rule base_delay_nonneg) simp
  have "sqrt (1 / 2 ^ 44) = 1 / sqrt ((2 ^ 22)\<^sup>2)"
    by (simp only: real_sqrt_divide real_sqrt_one power_even_eq [symmetric]) simp
  then have "sqrt (1 / 2 ^ 44) = 1 / 2 ^ 22" by simp
  then have "spec_d0 (2 ^ 44) = 676000 / 2 ^ 22" by (simp add: spec_d0_def)
  moreover have "base_delay float_sqrt (2 ^ 44) \<le> spec_d0 (2 ^ 44) * (1 + 1 / 2 ^ 21)"
    by (rule base_delay_rel) simp
  ultimately show "base_delay float_sqrt (2 ^ 44) \<le> 1 / 6 - 1 / 1000" by simp
qed

lemma acceleration_default_huge:
  "acceleration default_state (ramp_entry (base_delay float_sqrt (2 ^ 44))) =
     Some (default_state\<lparr>
        m_delay0 := [0, 0, 0, 0, 0, 0],
        m_delay := 3502391296, m_smooth_delay := 16384000, m_target_delay := 1638400000,
        m_shift := 14 \<rparr>)"
proof -
  have z: "ramp_entry (base_delay float_sqrt (2 ^ 44)) m = 0" if "m \<le> 5" for m
    using base_delay_huge that by (rule ramp_entry_small)
  have "map (ramp_entry (base_delay float_sqrt (2 ^ 44))) [0, 1, 2, 3, 4, 5] = [0, 0, 0, 0, 0, 0]"
    using z [of 0] z [of 1] z [of 2] z [of 3] z [of 4] z [of 5] by simp
  moreover have "acceleration default_state (ramp_entry (base_delay float_sqrt (2 ^ 44))) =
      shift_up ((shift_down default_state)\<lparr> m_delay := 213769,
        m_delay0 := map (ramp_entry (base_delay float_sqrt (2 ^ 44))) [0, 1, 2, 3, 4, 5] \<rparr>)"
    by (simp add: acceleration_def default_state_def is_stopped_def shift_down_def
        MICRO_LEVELS_def upt_6 Let_def)
  ultimately show ?thesis
    by (simp only:) (simp add: default_state_def eval_defs)
qed

section \<open>The ramp table and the formula of the specification\<close>

lemma acceleration_default_base_unit:
  "acceleration default_state (ramp_entry (base_delay float_sqrt 1)) =
     Some (default_state\<lparr>
        m_delay0 := [346112000, 489476096, 692224000, 978952192, 1384448000, 1957904896],
        m_delay := 109449728, m_smooth_delay := 512000, m_target_delay := 51200000,
        m_shift := 9 \<rparr>)"
  by (simp only: base_delay_unit acceleration_default_unit)

text \<open>
  C6, as claimed, fails. \<^verbatim>\<open>acceleration(1.0)\<close> on the default engine, with either overload
  of \<^verbatim>\<open>sqrt\<close>, chooses shift 9 and stores 489476096 for level 1, which is 956008 shifted
  left by 9: neither is \<open>d0 * sqrt(2^1)\<close> for \<open>d0 = sqrt(1/1.0) * 0.676 * 1e6\<close>, a number
  strictly between 956008 and 956009. \<^verbatim>\<open>acceleration(50.0)\<close> chooses shift 11 and stores
  276887552 for level 1, which is 135199 shifted left by 11, where
  \<open>sqrt(1/50.0) * 0.676 * 1e6 * sqrt(2^1)\<close> is 135200: the floating-point \<^verbatim>\<open>d0\<close> is below the
  \<open>d0\<close> of the formula.
\<close>

theorem ramp_table_formula_counterexample:
  "map_option m_delay0 (acceleration default_state (ramp_entry (base_delay False 1))) =
     Some [346112000, 489476096, 692224000, 978952192, 1384448000, 1957904896]
   \<and> map_option m_delay0 (acceleration default_state (ramp_entry (base_delay True 1))) =
     Some [346112000, 489476096, 692224000, 978952192, 1384448000, 1957904896]
   \<and> map_option m_shift (acceleration default_state (ramp_entry (base_delay False 1))) = Some 9
   \<and> real (unat (489476096 :: u32)) \<noteq> spec_start_delay 1 1
   \<and> real (unat (489476096 :: u32)) / 2 ^ 9 \<noteq> spec_start_delay 1 1
   \<and> map_option m_delay0 (acceleration default_state (ramp_entry (base_delay False 50))) =
     Some [195788800, 276887552, 391579648, 553777152, 783161344, 1107556352]
   \<and> map_option m_delay0 (acceleration default_state (ramp_entry (base_delay True 50))) =
     Some [195788800, 276887552, 391579648, 553777152, 783161344, 1107556352]
   \<and> map_option m_shift (acceleration default_state (ramp_entry (base_delay False 50))) = Some 11
   \<and> real (unat (276887552 :: u32)) / 2 ^ 11 = 135199
   \<and> spec_start_delay 50 1 = 135200"
proof -
  have eq: "spec_start_delay 1 1 = unit_d0 * sqrt (2 ^ 1)"
    by (simp add: spec_start_delay_def spec_d0_def unit_d0_def)
  have "956008 < spec_start_delay 1 1" "spec_start_delay 1 1 < 956009"
    unfolding eq using unit_d0_sqrt_bounds(1,2) by linarith+
  then have "real (unat (489476096 :: u32)) \<noteq> spec_start_delay 1 1"
    "real (unat (489476096 :: u32)) / 2 ^ 9 \<noteq> spec_start_delay 1 1"
    by simp_all
  moreover have "real (unat (276887552 :: u32)) / 2 ^ 11 = 135199" by simp
  ultimately show ?thesis
    by (simp only: acceleration_default_base_unit acceleration_default_fifty
        spec_start_delay_fifty) simp
qed

text \<open>
  C6 (amended). On a stopped engine, \<^verbatim>\<open>acceleration(accel)\<close> returns (unless the last new
  entry, the target delay and the smooth delay are all 0) with the base delay \<^verbatim>\<open>d0\<close> equal
  to \<open>sqrt(1/accel) * 0.676 * 1e6\<close> up to a relative rounding error of \<open>2\<^sup>-\<^sup>2\<^sup>1\<close>, and with
  every entry \<open>start_delay[m]\<close> equal to \<^verbatim>\<open>uint32_t(d0 * sqrt(1 << m))\<close> shifted left by the
  shift that \<^verbatim>\<open>shift_up\<close> chooses: divided by \<open>2 ^ shift\<close>, the entry lies between
  \<open>F * (1 - 2\<^sup>-\<^sup>2\<^sup>1) - 2\<close> and \<open>F * (1 + 2\<^sup>-\<^sup>2\<^sup>1) + 1\<close> for
  \<open>F = sqrt(1/accel) * 0.676 * 1e6 * sqrt(2^m)\<close>. The entries never decrease toward finer
  levels, and each is larger than the one before when \<^verbatim>\<open>d0\<close> is 2.5 or more. (The
  acceleration is at most \<open>2 ^ 126\<close>, so that \<^verbatim>\<open>1/accel\<close> is a normal float.)
\<close>

theorem acceleration_ramp_table:
  assumes "is_stopped s" "0 < accel" "accel \<le> 2 ^ 126" "unat (m_shift s) < 32"
    and "ramp_value (base_delay float_sqrt accel) 5 < 2 ^ 32"
    and "max_delay_of ((shift_down s)
          \<lparr> m_delay0 := map (ramp_entry (base_delay float_sqrt accel)) [0..<MICRO_LEVELS] \<rparr>) \<noteq> 0"
  shows "spec_d0 accel * (1 - 1 / 2 ^ 21) \<le> base_delay float_sqrt accel
       \<and> base_delay float_sqrt accel \<le> spec_d0 accel * (1 + 1 / 2 ^ 21)
       \<and> (\<exists>s'. acceleration s (ramp_entry (base_delay float_sqrt accel)) = Some s'
          \<and> (\<forall>m<MICRO_LEVELS.
                spec_start_delay accel m * (1 - 1 / 2 ^ 21) - 2
                  < real_of_int (uint (m_delay0 s' ! m)) / 2 ^ unat (m_shift s')
                \<and> real_of_int (uint (m_delay0 s' ! m)) / 2 ^ unat (m_shift s')
                  < spec_start_delay accel m * (1 + 1 / 2 ^ 21) + 1)
          \<and> (\<forall>m<MICRO_LEVELS - 1. m_delay0 s' ! m \<le> m_delay0 s' ! Suc m)
          \<and> (5 / 2 \<le> base_delay float_sqrt accel \<longrightarrow>
               (\<forall>m<MICRO_LEVELS - 1. m_delay0 s' ! m < m_delay0 s' ! Suc m)))"
proof -
  let ?d0 = "base_delay float_sqrt accel"
  have d: "0 \<le> ?d0" using assms(2) by (rule base_delay_nonneg)
  have rel: "spec_d0 accel * (1 - 1 / 2 ^ 21) \<le> ?d0" "?d0 \<le> spec_d0 accel * (1 + 1 / 2 ^ 21)"
    using assms(2) by (rule base_delay_rel)+
  note fits = assms(5) and nz = assms(6)
  from acceleration_ramp [OF assms(1) d fits nz] obtain s' k where s':
    "acceleration s (ramp_entry ?d0) = Some s'" "unat (m_shift s') = k"
    and ent: "\<And>m. m < MICRO_LEVELS \<Longrightarrow>
        uint (m_delay0 s' ! m) = \<lfloor>ramp_value ?d0 m\<rfloor> * 2 ^ k" by blast
  let ?e = "\<lambda>m. real_of_int \<lfloor>ramp_value ?d0 m\<rfloor>"
  let ?D = "\<lambda>m. real_of_int (uint (m_delay0 s' ! m))"
  have D: "?D m / 2 ^ k = ?e m" if "m < MICRO_LEVELS" for m
  proof -
    have "?D m = ?e m * 2 ^ k"
      by (simp only: ent [OF that] of_int_mult of_int_power of_int_numeral)
    then show ?thesis by simp
  qed
  have bounds: "spec_start_delay accel m * (1 - 1 / 2 ^ 21) - 2 < ?D m / 2 ^ k
        \<and> ?D m / 2 ^ k < spec_start_delay accel m * (1 + 1 / 2 ^ 21) + 1"
    if m: "m < MICRO_LEVELS" for m
  proof -
    define r where "r = sqrt (2 ^ m)"
    define t :: real where "t = 1 / 2 ^ 18"
    have m5: "m \<le> 5" using m by (simp add: MICRO_LEVELS_def)
    have r0: "0 \<le> r" by (simp add: r_def)
    have t: "0 \<le> t" "t < 1" by (simp_all add: t_def)
    have y: "\<bar>ramp_value ?d0 m - ?d0 * r\<bar> \<le> t"
      unfolding r_def t_def using d m5 fits by (rule ramp_value_abs)
    have "spec_d0 accel * (1 - 1 / 2 ^ 21) * r \<le> ?d0 * r" using rel(1) r0 by (rule mult_right_mono)
    moreover have "spec_d0 accel * (1 - 1 / 2 ^ 21) * r
        = spec_start_delay accel m * (1 - 1 / 2 ^ 21)"
      by (simp only: spec_start_delay_def r_def ac_simps)
    ultimately have lo: "spec_start_delay accel m * (1 - 1 / 2 ^ 21) \<le> ?d0 * r" by (simp only:)
    have "?d0 * r \<le> spec_d0 accel * (1 + 1 / 2 ^ 21) * r" using rel(2) r0 by (rule mult_right_mono)
    moreover have "spec_d0 accel * (1 + 1 / 2 ^ 21) * r
        = spec_start_delay accel m * (1 + 1 / 2 ^ 21)"
      by (simp only: spec_start_delay_def r_def ac_simps)
    ultimately have hi: "?d0 * r \<le> spec_start_delay accel m * (1 + 1 / 2 ^ 21)" by (simp only:)
    have f: "?e m \<le> ramp_value ?d0 m" "ramp_value ?d0 m < ?e m + 1" by linarith+
    have "spec_start_delay accel m * (1 - 1 / 2 ^ 21) - 2 < ?e m
        \<and> ?e m < spec_start_delay accel m * (1 + 1 / 2 ^ 21) + 1"
      using lo hi y f t by linarith
    then show ?thesis by (simp only: D [OF m])
  qed
  have mono: "m_delay0 s' ! m \<le> m_delay0 s' ! Suc m" if "m < MICRO_LEVELS - 1" for m
  proof -
    have lt: "m < MICRO_LEVELS" "Suc m < MICRO_LEVELS" using that by simp_all
    have "\<lfloor>ramp_value ?d0 m\<rfloor> \<le> \<lfloor>ramp_value ?d0 (Suc m)\<rfloor>"
      using d by (intro floor_mono ramp_value_mono) simp_all
    then have "\<lfloor>ramp_value ?d0 m\<rfloor> * 2 ^ k \<le> \<lfloor>ramp_value ?d0 (Suc m)\<rfloor> * 2 ^ k"
      by (rule mult_right_mono) simp
    then have "uint (m_delay0 s' ! m) \<le> uint (m_delay0 s' ! Suc m)"
      by (simp only: ent [OF lt(1)] ent [OF lt(2)])
    then show ?thesis by (simp add: word_le_def)
  qed
  have strict: "m_delay0 s' ! m < m_delay0 s' ! Suc m"
    if "5 / 2 \<le> ?d0" "m < MICRO_LEVELS - 1" for m
    using assms(1) that(1) fits nz s'(1) that(2) by (rule acceleration_ramp_strict)
  have "\<exists>s'. acceleration s (ramp_entry ?d0) = Some s'
          \<and> (\<forall>m<MICRO_LEVELS.
                spec_start_delay accel m * (1 - 1 / 2 ^ 21) - 2
                  < real_of_int (uint (m_delay0 s' ! m)) / 2 ^ unat (m_shift s')
                \<and> real_of_int (uint (m_delay0 s' ! m)) / 2 ^ unat (m_shift s')
                  < spec_start_delay accel m * (1 + 1 / 2 ^ 21) + 1)
          \<and> (\<forall>m<MICRO_LEVELS - 1. m_delay0 s' ! m \<le> m_delay0 s' ! Suc m)
          \<and> (5 / 2 \<le> ?d0 \<longrightarrow> (\<forall>m<MICRO_LEVELS - 1. m_delay0 s' ! m < m_delay0 s' ! Suc m))"
    using s' bounds mono strict by blast
  with rel show ?thesis by blast
qed

text \<open>C6 (amended) at the default engine with \<^verbatim>\<open>accel = 1.0\<close> and the double \<^verbatim>\<open>sqrt\<close>.\<close>

theorem acceleration_ramp_table_witness:
  "is_stopped default_state \<and> (0::real) < 1 \<and> (1::real) \<le> 2 ^ 126
   \<and> unat (m_shift default_state) < 32
   \<and> ramp_value (base_delay False 1) 5 < 2 ^ 32
   \<and> max_delay_of ((shift_down default_state)
        \<lparr> m_delay0 := map (ramp_entry (base_delay False 1)) [0..<MICRO_LEVELS] \<rparr>) \<noteq> 0
   \<and> 5 / 2 \<le> base_delay False 1
   \<and> (\<exists>s'. acceleration default_state (ramp_entry (base_delay False 1)) = Some s'
        \<and> m_delay0 s' ! 0 < m_delay0 s' ! Suc 0)"
proof -
  have h: "is_stopped default_state" "(0::real) < 1" "(1::real) \<le> 2 ^ 126"
    "unat (m_shift default_state) < 32"
    "ramp_value (base_delay False 1) 5 < 2 ^ 32"
    "max_delay_of ((shift_down default_state)
        \<lparr> m_delay0 := map (ramp_entry (base_delay False 1)) [0..<MICRO_LEVELS] \<rparr>) \<noteq> 0"
    using default_unit_hyps by (simp_all add: base_delay_unit)
  have big: "5 / 2 \<le> base_delay False 1" by (simp add: base_delay_unit unit_d0_def)
  have m: "0 < MICRO_LEVELS - 1" by (simp add: MICRO_LEVELS_def)
  from acceleration_ramp_table [OF h] big m
  have "\<exists>s'. acceleration default_state (ramp_entry (base_delay False 1)) = Some s'
        \<and> m_delay0 s' ! 0 < m_delay0 s' ! Suc 0" by blast
  with h big show ?thesis by blast
qed

section \<open>The ratio between the entries of the ramp table\<close>

text \<open>
  C7, as claimed, fails. \<^verbatim>\<open>acceleration(1.0)\<close> on the default engine, with either overload
  of \<^verbatim>\<open>sqrt\<close>, gives the table below: the entry of level 2 is twice the entry of level 0,
  not the entry of level 0 divided by \<open>sqrt (2 ^ 2)\<close>.
\<close>

theorem ramp_table_division_counterexample:
  "map_option m_delay0 (acceleration default_state (ramp_entry (base_delay False 1))) =
     Some [346112000, 489476096, 692224000, 978952192, 1384448000, 1957904896]
   \<and> map_option m_delay0 (acceleration default_state (ramp_entry (base_delay True 1))) =
     Some [346112000, 489476096, 692224000, 978952192, 1384448000, 1957904896]
   \<and> real (unat (692224000 :: u32)) \<noteq> real (unat (346112000 :: u32)) / sqrt (2 ^ 2)
   \<and> real (unat (692224000 :: u32)) = real (unat (346112000 :: u32)) * sqrt (2 ^ 2)"
proof -
  have "sqrt (2 ^ 2) = 2" by simp
  then show ?thesis by (simp add: acceleration_default_base_unit)
qed

text \<open>
  C7 (amended). After \<^verbatim>\<open>acceleration(accel)\<close> has regenerated the table, every entry is the
  entry of level 0 multiplied, not divided, by \<open>sqrt (2 ^ level)\<close>, up to the rounding and
  truncation of each entry (less than two units of \<open>2 ^ shift\<close>); no entry is below the
  entry of level 0, and each entry is larger than the one before when the base delay
  \<^verbatim>\<open>d0\<close> is 2.5 or more.
\<close>

theorem ramp_table_multiplication:
  assumes "is_stopped s" "0 < accel" "accel \<le> 2 ^ 126" "unat (m_shift s) < 32"
    and "ramp_value (base_delay float_sqrt accel) 5 < 2 ^ 32"
    and "max_delay_of ((shift_down s)
          \<lparr> m_delay0 := map (ramp_entry (base_delay float_sqrt accel)) [0..<MICRO_LEVELS] \<rparr>) \<noteq> 0"
  shows "\<exists>s'. acceleration s (ramp_entry (base_delay float_sqrt accel)) = Some s'
          \<and> (\<forall>m<MICRO_LEVELS.
                real_of_int (uint (m_delay0 s' ! 0)) * sqrt (2 ^ m) - 2 * 2 ^ unat (m_shift s')
                  < real_of_int (uint (m_delay0 s' ! m))
                \<and> real_of_int (uint (m_delay0 s' ! m))
                  < (real_of_int (uint (m_delay0 s' ! 0)) + 2 * 2 ^ unat (m_shift s')) * sqrt (2 ^ m)
                \<and> m_delay0 s' ! 0 \<le> m_delay0 s' ! m)
          \<and> (5 / 2 \<le> base_delay float_sqrt accel \<longrightarrow>
               (\<forall>m<MICRO_LEVELS - 1. m_delay0 s' ! m < m_delay0 s' ! Suc m))"
proof -
  let ?d0 = "base_delay float_sqrt accel"
  have d: "0 \<le> ?d0" using assms(2) by (rule base_delay_nonneg)
  from ramp_table_of_base [OF assms(1) d assms(4,5,6)] obtain s' where s':
    "acceleration s (ramp_entry ?d0) = Some s'"
    and ratio: "\<forall>m<MICRO_LEVELS.
        real_of_int (uint (m_delay0 s' ! 0)) * sqrt (2 ^ m) - 2 * 2 ^ unat (m_shift s')
          < real_of_int (uint (m_delay0 s' ! m))
        \<and> real_of_int (uint (m_delay0 s' ! m))
          < (real_of_int (uint (m_delay0 s' ! 0)) + 2 * 2 ^ unat (m_shift s')) * sqrt (2 ^ m)
        \<and> m_delay0 s' ! 0 \<le> m_delay0 s' ! m" by blast
  have strict: "m_delay0 s' ! m < m_delay0 s' ! Suc m"
    if "5 / 2 \<le> ?d0" "m < MICRO_LEVELS - 1" for m
    using assms(1) that(1) assms(5,6) s' that(2) by (rule acceleration_ramp_strict)
  from s' ratio strict show ?thesis by blast
qed

text \<open>C7 (amended) at the default engine with \<^verbatim>\<open>accel = 1.0\<close> and the float \<^verbatim>\<open>sqrt\<close>.\<close>

theorem ramp_table_multiplication_witness:
  "is_stopped default_state \<and> (0::real) < 1 \<and> (1::real) \<le> 2 ^ 126
   \<and> unat (m_shift default_state) < 32
   \<and> ramp_value (base_delay True 1) 5 < 2 ^ 32
   \<and> max_delay_of ((shift_down default_state)
        \<lparr> m_delay0 := map (ramp_entry (base_delay True 1)) [0..<MICRO_LEVELS] \<rparr>) \<noteq> 0
   \<and> 5 / 2 \<le> base_delay True 1
   \<and> (\<exists>s'. acceleration default_state (ramp_entry (base_delay True 1)) = Some s'
        \<and> m_delay0 s' ! 4 < m_delay0 s' ! Suc 4)"
proof -
  have h: "is_stopped default_state" "(0::real) < 1" "(1::real) \<le> 2 ^ 126"
    "unat (m_shift default_state) < 32"
    "ramp_value (base_delay True 1) 5 < 2 ^ 32"
    "max_delay_of ((shift_down default_state)
        \<lparr> m_delay0 := map (ramp_entry (base_delay True 1)) [0..<MICRO_LEVELS] \<rparr>) \<noteq> 0"
    using default_unit_hyps by (simp_all add: base_delay_unit)
  have big: "5 / 2 \<le> base_delay True 1" by (simp add: base_delay_unit unit_d0_def)
  have m: "4 < MICRO_LEVELS - 1" by (simp add: MICRO_LEVELS_def)
  from ramp_table_multiplication [OF h] big m
  have "\<exists>s'. acceleration default_state (ramp_entry (base_delay True 1)) = Some s'
        \<and> m_delay0 s' ! 4 < m_delay0 s' ! Suc 4" by blast
  with h big show ?thesis by blast
qed

end
